theory Spec2Isabelle
  imports Main "HOL-Library.Word" "HOL-Library.Sublist"
begin

unbundle bit_operations_syntax

section \<open>SymSpell: a shallow embedding of the Go sources\<close>

text \<open>
  Conventions of the embedding.
  \<^item> A Go \<open>string\<close> is a sequence of bytes: \<^typ>\<open>string\<close> (a \<^typ>\<open>char\<close> is one byte),
    so \<open>len(s)\<close> is \<^term>\<open>length s\<close>.
  \<^item> A Go \<open>uint32\<close> is a \<^typ>\<open>32 word\<close>, a \<open>uint64\<close> a \<^typ>\<open>64 word\<close>.
  \<^item> A Go \<open>int\<close> (64 bits) is an \<^typ>\<open>int\<close>; where a user-supplied operand can
    push an operation out of the 64-bit range the wrap-around is written out
    (\<open>add64\<close>, \<open>sub64\<close>, \<open>mul64\<close>). Loop counters that range over the positions of
    a string or a slice are natural numbers.
  \<^item> A run-time panic (index out of range) is the value \<open>Inl IndexOutOfRange\<close>.
\<close>

subsection \<open>Machine integers\<close>

type_synonym uint32 = "32 word"
type_synonym uint64 = "64 word"

definition wrap64 :: "int \<Rightarrow> int" where
  "wrap64 x = (x + 2 ^ 63) mod 2 ^ 64 - 2 ^ 63"

definition add64 :: "int \<Rightarrow> int \<Rightarrow> int" where
  "add64 x y = wrap64 (x + y)"

definition sub64 :: "int \<Rightarrow> int \<Rightarrow> int" where
  "sub64 x y = wrap64 (x - y)"

definition mul64 :: "int \<Rightarrow> int \<Rightarrow> int" where
  "mul64 x y = wrap64 (x * y)"

definition int64 :: "int \<Rightarrow> bool" where
  "int64 x = (- (2 ^ 63) \<le> x \<and> x < 2 ^ 63)"

datatype panic = IndexOutOfRange

subsection \<open>Saturating count addition (\<open>incrementCount\<close>)\<close>

text \<open>\<^verbatim>\<open>const maxUint32 = ^uint32(0)\<close>\<close>

definition maxUint32 :: uint32 where
  "maxUint32 = NOT 0"

definition incrementCount :: "uint32 \<Rightarrow> uint32 \<Rightarrow> uint32" where
  "incrementCount count countPrevious =
     (if maxUint32 - countPrevious > count then countPrevious + count else maxUint32)"


lemma wrap64_int64: "int64 (wrap64 x)"
proof -
  have "0 \<le> (x + 2 ^ 63) mod (2 ^ 64 :: int)" "(x + 2 ^ 63) mod (2 ^ 64 :: int) < 2 ^ 64"
    by simp_all
  then show ?thesis by (simp add: wrap64_def int64_def)
qed

lemma wrap64_le: "- (2 ^ 63) \<le> x \<Longrightarrow> wrap64 x \<le> x"
proof -
  assume "- (2 ^ 63) \<le> x"
  then have "0 \<le> x + 2 ^ 63" by simp
  then have "(x + 2 ^ 63) mod (2 ^ 64 :: int) \<le> x + 2 ^ 63"
    by (rule zmod_le_nonneg_dividend)
  then show ?thesis by (simp add: wrap64_def)
qed

lemma maxUint32_unat: "unat maxUint32 = 2 ^ 32 - 1"
  by (simp add: maxUint32_def unsigned_minus_1_eq_mask mask_eq_exp_minus_1)

lemma unat_lt32: "unat (w :: uint32) < 2 ^ 32"
  using unsigned_less [of w] by simp

lemma unat_max_sub: "unat (maxUint32 - p) = 2 ^ 32 - 1 - unat p"
proof -
  have "p \<le> maxUint32"
    by (simp add: word_le_nat_alt maxUint32_unat) (use unat_lt32 [of p] in simp)
  then show ?thesis
    by (simp add: unat_sub maxUint32_unat)
qed

lemma incrementCount_unat:
  "unat (incrementCount c p) = min (unat p + unat c) (2 ^ 32 - 1)"
proof (cases "maxUint32 - p > c")
  case True
  then have lt: "unat c < 2 ^ 32 - 1 - unat p"
    by (simp add: word_less_nat_alt unat_max_sub)
  then have "unat (p + c) = unat p + unat c"
    by (simp add: unat_add_lem [THEN iffD1])
  with True lt show ?thesis by (simp add: incrementCount_def)
next
  case False
  then have "\<not> unat c < 2 ^ 32 - 1 - unat p"
    by (simp add: word_less_nat_alt unat_max_sub)
  with False show ?thesis by (simp add: incrementCount_def maxUint32_unat)
qed

lemma incrementCount_ge: "p \<le> incrementCount c p"
  using incrementCount_unat [of c p] unat_lt32 [of p] by (simp add: word_le_nat_alt)

text \<open>
  Claim C9. For all \<open>uint32\<close> values \<open>count\<close> and \<open>countPrevious\<close>,
  \<open>incrementCount(count, countPrevious)\<close> is \<open>min(countPrevious + count, 2^32 - 1)\<close>
  computed on the unbounded naturals: the sum saturates instead of wrapping around,
  and the result is never below \<open>countPrevious\<close>.
\<close>

theorem incrementCount_saturates:
  "unat (incrementCount count countPrevious) = min (unat countPrevious + unat count) (2 ^ 32 - 1)
   \<and> countPrevious \<le> incrementCount count countPrevious"
  by (simp add: incrementCount_unat incrementCount_ge)

subsection \<open>Runes and UTF-8\<close>

text \<open>
  The conversions \<open>[]rune(s)\<close> and \<open>string(runes)\<close> and \<open>utf8.RuneCountInString\<close> belong
  to the Go language and its library, not to this repository. They are modelled after
  the Go specification: decoding reads one code point at a time, and every byte that
  does not start a well-formed encoding yields \<open>U+FFFD\<close> and is skipped alone; encoding
  writes \<open>U+FFFD\<close> for a surrogate or a value beyond \<open>U+10FFFF\<close>. A rune is a natural
  number (the decoder never yields a negative one). The masks of the decoder
  (\<open>b & 0x1F\<close>, \<open>b & 0x3F\<close>, ...) are written as subtractions, which is the same number
  inside the byte ranges that are tested first.
\<close>

type_synonym rune = nat

definition runeError :: rune where "runeError = 0xFFFD"

definition cont :: "nat \<Rightarrow> bool" where
  "cont b = (0x80 \<le> b \<and> b \<le> 0xBF)"

definition rune2 :: "nat \<Rightarrow> nat \<Rightarrow> rune" where
  "rune2 b0 b1 = (b0 - 0xC0) * 0x40 + (b1 - 0x80)"

definition rune3 :: "nat \<Rightarrow> nat \<Rightarrow> nat \<Rightarrow> rune" where
  "rune3 b0 b1 b2 = (b0 - 0xE0) * 0x1000 + (b1 - 0x80) * 0x40 + (b2 - 0x80)"

definition rune4 :: "nat \<Rightarrow> nat \<Rightarrow> nat \<Rightarrow> nat \<Rightarrow> rune" where
  "rune4 b0 b1 b2 b3 =
     (b0 - 0xF0) * 0x40000 + (b1 - 0x80) * 0x1000 + ((b2 - 0x80) * 0x40 + (b3 - 0x80))"

definition decoderune :: "nat list \<Rightarrow> rune \<times> nat" where
  "decoderune s =
     (let b0 = s ! 0 in
      if 0xC0 \<le> b0 \<and> b0 < 0xE0 then
        (if length s > 1 \<and> cont (s ! 1) \<and> 0x7F < rune2 b0 (s ! 1)
         then (rune2 b0 (s ! 1), 2) else (runeError, 1))
      else if 0xE0 \<le> b0 \<and> b0 < 0xF0 then
        (if length s > 2 \<and> cont (s ! 1) \<and> cont (s ! 2) \<and> 0x7FF < rune3 b0 (s ! 1) (s ! 2)
            \<and> \<not> (0xD800 \<le> rune3 b0 (s ! 1) (s ! 2) \<and> rune3 b0 (s ! 1) (s ! 2) \<le> 0xDFFF)
         then (rune3 b0 (s ! 1) (s ! 2), 3) else (runeError, 1))
      else if 0xF0 \<le> b0 \<and> b0 < 0xF8 then
        (if length s > 3 \<and> cont (s ! 1) \<and> cont (s ! 2) \<and> cont (s ! 3)
            \<and> 0xFFFF < rune4 b0 (s ! 1) (s ! 2) (s ! 3) \<and> rune4 b0 (s ! 1) (s ! 2) (s ! 3) \<le> 0x10FFFF
         then (rune4 b0 (s ! 1) (s ! 2) (s ! 3), 4) else (runeError, 1))
      else (runeError, 1))"

function decode :: "nat list \<Rightarrow> rune list" where
  "decode [] = []"
| "decode (b # bs) =
     (if b < 0x80 then b # decode bs
      else (let (r, n) = decoderune (b # bs) in r # decode (drop (n - 1) bs)))"
  by pat_completeness auto
termination
  by (relation "measure length") auto

definition encoderune :: "rune \<Rightarrow> nat list" where
  "encoderune r =
     (if r \<le> 0x7F then [r]
      else if r \<le> 0x7FF then [0xC0 + r div 0x40, 0x80 + r mod 0x40]
      else if r > 0x10FFFF \<or> (0xD800 \<le> r \<and> r \<le> 0xDFFF) then [0xEF, 0xBF, 0xBD]
      else if r \<le> 0xFFFF then
        [0xE0 + r div 0x1000, 0x80 + (r div 0x40) mod 0x40, 0x80 + r mod 0x40]
      else [0xF0 + r div 0x40000, 0x80 + (r div 0x1000) mod 0x40,
            0x80 + (r div 0x40) mod 0x40, 0x80 + r mod 0x40])"

definition runes_of_string :: "string \<Rightarrow> rune list" where
  "runes_of_string s = decode (map of_char s)"

definition string_of_runes :: "rune list \<Rightarrow> string" where
  "string_of_runes rs = map char_of (concat (map encoderune rs))"

definition valid_rune :: "rune \<Rightarrow> bool" where
  "valid_rune r = (r \<le> 0x10FFFF \<and> \<not> (0xD800 \<le> r \<and> r \<le> 0xDFFF))"

lemma mod64_le: "(x::nat) mod 0x40 \<le> 0x3F"
  by (rule less_Suc_eq_le [THEN iffD1]) simp

lemma encoderune_lt256: "b \<in> set (encoderune r) \<Longrightarrow> b < 256"
proof -
  have m: "r mod 0x40 \<le> 0x3F" "(r div 0x40) mod 0x40 \<le> 0x3F" "(r div 0x1000) mod 0x40 \<le> 0x3F"
    by (rule mod64_le)+
  have d: "r \<le> 0x7FF \<Longrightarrow> r div 0x40 < 0x20" "r \<le> 0xFFFF \<Longrightarrow> r div 0x1000 < 0x10"
    "r \<le> 0x10FFFF \<Longrightarrow> r div 0x40000 < 0x08"
    by (simp_all add: less_mult_imp_div_less)
  assume "b \<in> set (encoderune r)"
  then consider "r \<le> 0x7F" "b = r" | "r \<le> 0x7FF" "b = 0xC0 + r div 0x40"
    | "b = 0x80 + r mod 0x40" | "b \<in> {0xEF, 0xBF, 0xBD}"
    | "r \<le> 0xFFFF" "b = 0xE0 + r div 0x1000" | "b = 0x80 + (r div 0x40) mod 0x40"
    | "r \<le> 0x10FFFF" "b = 0xF0 + r div 0x40000" | "b = 0x80 + (r div 0x1000) mod 0x40"
    unfolding encoderune_def by (auto split: if_splits)
  then show ?thesis
  proof cases
    case 1 then show ?thesis by simp
  next
    case 2 then show ?thesis using d(1) by simp
  next
    case 3 then show ?thesis using m(1) by simp
  next
    case 4 then show ?thesis by auto
  next
    case 5 then show ?thesis using d(2) by simp
  next
    case 6 then show ?thesis using m(2) by simp
  next
    case 7 then show ?thesis using d(3) by simp
  next
    case 8 then show ?thesis using m(3) by simp
  qed
qed

lemma comb3:
  assumes "a * 64 + c = b" "b * 64 + e = r"
  shows "a * 4096 + c * 64 + e = (r::nat)"
proof -
  have "r = (a * 64 + c) * 64 + e" using assms by simp
  then show ?thesis by (simp add: algebra_simps)
qed

lemma digits3: "(r::nat) div 0x1000 * 0x1000 + (r div 0x40) mod 0x40 * 0x40 + r mod 0x40 = r"
proof -
  have a: "r div 0x1000 = r div 0x40 div 0x40" by (simp add: div_mult2_eq [symmetric])
  have b: "r div 0x40 div 0x40 * 0x40 + (r div 0x40) mod 0x40 = r div 0x40" by simp
  have c: "r div 0x40 * 0x40 + r mod 0x40 = r" by simp
  show ?thesis unfolding a by (rule comb3 [OF b c])
qed

lemma comb4:
  assumes "a * 64 + c = b" "b * 4096 + e = r"
  shows "a * 262144 + c * 4096 + e = (r::nat)"
proof -
  have "r = (a * 64 + c) * 4096 + e" using assms by simp
  then show ?thesis by (simp add: algebra_simps)
qed

lemma digits4: "(r::nat) div 0x40000 * 0x40000 + (r div 0x1000) mod 0x40 * 0x1000
           + ((r div 0x40) mod 0x40 * 0x40 + r mod 0x40) = r"
proof -
  have a: "r div 0x40000 = r div 0x1000 div 0x40" by (simp add: div_mult2_eq [symmetric])
  have b: "r div 0x1000 div 0x40 * 0x40 + (r div 0x1000) mod 0x40 = r div 0x1000" by simp
  have c: "r div 0x1000 * 0x1000 + ((r div 0x40) mod 0x40 * 0x40 + r mod 0x40) = r"
    using digits3 [of r] by (simp only: add.assoc)
  show ?thesis unfolding a by (rule comb4 [OF b c])
qed

lemma rune2_enc: "rune2 (0xC0 + r div 0x40) (0x80 + r mod 0x40) = r"
  by (simp add: rune2_def)

lemma rune3_enc: "rune3 (0xE0 + r div 0x1000) (0x80 + (r div 0x40) mod 0x40) (0x80 + r mod 0x40) = r"
  by (simp add: rune3_def digits3)

lemma rune4_enc: "rune4 (0xF0 + r div 0x40000) (0x80 + (r div 0x1000) mod 0x40)
                    (0x80 + (r div 0x40) mod 0x40) (0x80 + r mod 0x40) = r"
  by (simp add: rune4_def digits4)

lemma cont_enc: "cont (0x80 + x mod 0x40)"
  using mod64_le [of x] by (simp add: cont_def)

lemma decode_enc2:
  assumes "0x7F < r" "r \<le> 0x7FF"
  shows "decode ((0xC0 + r div 0x40) # (0x80 + r mod 0x40) # bs) = r # decode bs"
proof -
  have a: "r div 0x40 < 0x20" using assms by (simp add: less_mult_imp_div_less)
  have d: "decoderune ((0xC0 + r div 0x40) # (0x80 + r mod 0x40) # bs) = (r, 2)"
    using assms a unfolding decoderune_def Let_def by (simp add: rune2_enc cont_enc)
  show ?thesis using a by (simp add: d)
qed

lemma decode_enc3:
  assumes "0x7FF < r" "r \<le> 0xFFFF" "\<not> (0xD800 \<le> r \<and> r \<le> 0xDFFF)"
  shows "decode ((0xE0 + r div 0x1000) # (0x80 + (r div 0x40) mod 0x40) # (0x80 + r mod 0x40) # bs)
         = r # decode bs"
proof -
  have a: "r div 0x1000 < 0x10" using assms by (simp add: less_mult_imp_div_less)
  have d: "decoderune ((0xE0 + r div 0x1000) # (0x80 + (r div 0x40) mod 0x40) # (0x80 + r mod 0x40) # bs) = (r, 3)"
    using assms a unfolding decoderune_def Let_def by (simp add: rune3_enc cont_enc)
  show ?thesis using a by (simp add: d)
qed

lemma decode_enc4:
  assumes "0xFFFF < r" "r \<le> 0x10FFFF"
  shows "decode ((0xF0 + r div 0x40000) # (0x80 + (r div 0x1000) mod 0x40)
                 # (0x80 + (r div 0x40) mod 0x40) # (0x80 + r mod 0x40) # bs)
         = r # decode bs"
proof -
  have a: "r div 0x40000 < 0x08" using assms by (simp add: less_mult_imp_div_less)
  have d: "decoderune ((0xF0 + r div 0x40000) # (0x80 + (r div 0x1000) mod 0x40)
                 # (0x80 + (r div 0x40) mod 0x40) # (0x80 + r mod 0x40) # bs) = (r, 4)"
    using assms a unfolding decoderune_def Let_def by (simp add: rune4_enc cont_enc)
  show ?thesis using a by (simp add: d)
qed

lemma enc2: "0x7F < r \<Longrightarrow> r \<le> 0x7FF \<Longrightarrow> encoderune r = [0xC0 + r div 0x40, 0x80 + r mod 0x40]"
  by (simp add: encoderune_def)

lemma enc3: "0x7FF < r \<Longrightarrow> r \<le> 0xFFFF \<Longrightarrow> \<not> (0xD800 \<le> r \<and> r \<le> 0xDFFF) \<Longrightarrow>
   encoderune r = [0xE0 + r div 0x1000, 0x80 + (r div 0x40) mod 0x40, 0x80 + r mod 0x40]"
  unfolding encoderune_def by auto

lemma enc4: "0xFFFF < r \<Longrightarrow> r \<le> 0x10FFFF \<Longrightarrow>
   encoderune r = [0xF0 + r div 0x40000, 0x80 + (r div 0x1000) mod 0x40,
            0x80 + (r div 0x40) mod 0x40, 0x80 + r mod 0x40]"
  unfolding encoderune_def by auto

lemma decode_encoderune: 
  assumes "valid_rune r"
  shows "decode (encoderune r @ bs) = r # decode bs"
proof -
  have v: "r \<le> 0x10FFFF" "\<not> (0xD800 \<le> r \<and> r \<le> 0xDFFF)"
    using assms by (simp_all add: valid_rune_def)
  consider "r \<le> 0x7F" | "0x7F < r" "r \<le> 0x7FF" | "0x7FF < r" "r \<le> 0xFFFF" | "0xFFFF < r"
    by linarith
  then show ?thesis
  proof cases
    case 1
    then show ?thesis by (simp add: encoderune_def)
  next
    case 2
    show ?thesis unfolding enc2 [OF 2] using decode_enc2 [OF 2] by (simp del: decode.simps)
  next
    case 3
    show ?thesis unfolding enc3 [OF 3 v(2)] using decode_enc3 [OF 3 v(2)] by (simp del: decode.simps)
  next
    case 4
    show ?thesis unfolding enc4 [OF 4 v(1)] using decode_enc4 [OF 4 v(1)] by (simp del: decode.simps)
  qed
qed

lemma decode_concat_encode:
  "\<forall>r \<in> set rs. valid_rune r \<Longrightarrow> decode (concat (map encoderune rs)) = rs"
  by (induction rs) (simp_all add: decode_encoderune del: decode.simps(2))

lemma rune2_le: "b0 < 0xE0 \<Longrightarrow> cont b1 \<Longrightarrow> rune2 b0 b1 \<le> 0x7FF"
  unfolding rune2_def cont_def by arith

lemma rune3_le: "b0 < 0xF0 \<Longrightarrow> cont b1 \<Longrightarrow> cont b2 \<Longrightarrow> rune3 b0 b1 b2 \<le> 0xFFFF"
  unfolding rune3_def cont_def by arith

lemma decoderune_valid: "valid_rune (fst (decoderune s))"
  using rune2_le [of "s ! 0" "s ! 1"] rune3_le [of "s ! 0" "s ! 1" "s ! 2"]
  unfolding decoderune_def Let_def valid_rune_def runeError_def
  by auto

lemma decode_valid: "r \<in> set (decode bs) \<Longrightarrow> valid_rune r"
proof (induction bs arbitrary: r rule: decode.induct)
  case 1
  then show ?case by simp
next
  case (2 b bs)
  show ?case
  proof (cases "b < 0x80")
    case True
    with 2 show ?thesis by (auto simp: valid_rune_def)
  next
    case False
    obtain r' n where d: "decoderune (b # bs) = (r', n)" by (cases "decoderune (b # bs)")
    have "valid_rune r'" using decoderune_valid [of "b # bs"] d by simp
    with 2 False d show ?thesis by auto
  qed
qed

lemma decode_ascii: "\<forall>b \<in> set bs. b < 0x80 \<Longrightarrow> decode bs = bs"
  by (induction bs) simp_all

lemma length_decode: "length (decode bs) \<le> length bs"
proof (induction bs rule: decode.induct)
  case 1
  then show ?case by simp
next
  case (2 b bs)
  show ?case
  proof (cases "b < 0x80")
    case True
    with 2 show ?thesis by simp
  next
    case False
    obtain r' n where d: "decoderune (b # bs) = (r', n)" by (cases "decoderune (b # bs)")
    have "length (decode (drop (n - 1) bs)) \<le> length (drop (n - 1) bs)"
      using 2(2) [OF False d [symmetric] refl] .
    with False d show ?thesis by simp
  qed
qed

lemma runes_of_string_of_runes:
  assumes "\<forall>r \<in> set rs. valid_rune r"
  shows "runes_of_string (string_of_runes rs) = rs"
proof -
  have "map of_char (map char_of (concat (map encoderune rs)) :: string) = concat (map encoderune rs)"
    unfolding map_map
  proof (rule map_idI)
    fix b assume "b \<in> set (concat (map encoderune rs))"
    then have "b < 256" by (auto dest: encoderune_lt256)
    then show "(of_char \<circ> (char_of :: nat \<Rightarrow> char)) b = b" by (simp add: of_char_of)
  qed
  then show ?thesis
    by (simp add: runes_of_string_def string_of_runes_def decode_concat_encode [OF assms])
qed

lemma string_of_runes_Nil_iff: "string_of_runes rs = [] \<longleftrightarrow> rs = []"
  by (cases rs) (auto simp: string_of_runes_def encoderune_def)

subsection \<open>Data model\<close>

text \<open>
  \<open>items.SuggestItem\<close> and \<open>verbosity.Verbosity\<close> are declared in packages that are not
  among the sources; they are taken from the specification's result record
  \<open>{term, distance, count}\<close> and its enumeration \<open>Top\<close>, \<open>Closest\<close>, \<open>All\<close> (written
  \<open>All'\<close> here, the name \<open>All\<close> being HOL's universal quantifier). Of the \<open>SymSpell\<close>
  structure, the fields the modelled functions read or write are kept. The cache's
  doubly linked list with its map from keys to list elements is the list of entries,
  front first. A Go map used as a set (\<open>map[string]bool\<close>, \<open>map[string]struct{}\<close>) is a
  list without duplicates or a set; Go ranges over a map in an unspecified order, the
  model in the list's order.
\<close>

record SuggestItem =
  Term :: string
  Distance :: int
  Count :: int

datatype Verbosity = Top | Closest | All'

record EditDistance =
  Type :: string

type_synonym cacheEntry = "string \<times> SuggestItem"

record topCache =
  capacity :: int
  ll :: "cacheEntry list"

record SymSpell =
  MaxDictionaryEditDistance :: int
  PrefixLength :: int
  CountThreshold :: int
  FrequencyThreshold :: int
  FrequencyMultiplier :: int
  Words :: "string \<rightharpoonup> uint32"
  BelowThresholdWords :: "string \<rightharpoonup> uint32"
  DeletesIdx :: "string \<rightharpoonup> uint64"
  DeletesData :: "uint32 list"
  words :: "string list"
  counts :: "uint32 list"
  maxLength :: int
  distanceComparer :: EditDistance
  topCache :: topCache

subsection \<open>Delete enumeration (\<open>edits\<close>, \<open>editsPrefix\<close>)\<close>

text \<open>
  The loop of \<open>edits\<close> is \<open>edits_loop\<close>, with the loop counter as its last argument.
  \<open>runes[:s.PrefixLength]\<close> panics for a negative \<open>PrefixLength\<close>.
\<close>

definition RuneCountInString :: "string \<Rightarrow> nat" where
  "RuneCountInString s = length (runes_of_string s)"

function edits :: "SymSpell \<Rightarrow> string \<Rightarrow> int \<Rightarrow> string list \<Rightarrow> nat \<Rightarrow> string list"
  and edits_loop :: "SymSpell \<Rightarrow> rune list \<Rightarrow> int \<Rightarrow> string list \<Rightarrow> nat \<Rightarrow> string list"
where
  "edits s word editDistance deleteWords currentDistance =
     (let editDistance = editDistance + 1;
          runes = runes_of_string word
      in if length runes = 0 then
           (if int (RuneCountInString word) \<le> MaxDictionaryEditDistance s
            then List.insert [] deleteWords else deleteWords)
         else edits_loop s runes editDistance deleteWords currentDistance)"
| "edits_loop s runes editDistance deleteWords i =
     (if i < length runes then
        (let deleteWord = string_of_runes (take i runes) @ string_of_runes (drop (i + 1) runes);
             deleteWords = List.insert deleteWord deleteWords;
             deleteWords = (if editDistance < MaxDictionaryEditDistance s
                            then edits s deleteWord editDistance deleteWords i
                            else deleteWords)
         in edits_loop s runes editDistance deleteWords (i + 1))
      else deleteWords)"
  by pat_completeness auto
termination
  by (relation "inv_image (less_than <*lex*> less_than)
        (\<lambda>x. case x of
           Inl (s, word, ed, dw, cur) \<Rightarrow> (2 * nat (MaxDictionaryEditDistance s - ed) + 1, 0)
         | Inr (s, runes, ed, dw, i) \<Rightarrow> (2 * nat (MaxDictionaryEditDistance s - ed + 1), length runes - i))")
     auto

definition editsPrefix :: "SymSpell \<Rightarrow> string \<Rightarrow> panic + string list" where
  "editsPrefix s key =
     (let hashSet = [];
          hashSet = (if int (RuneCountInString key) \<le> MaxDictionaryEditDistance s
                     then List.insert [] hashSet else hashSet);
          runes = runes_of_string key
      in if int (length runes) > PrefixLength s then
           (if PrefixLength s < 0 then Inl IndexOutOfRange
            else (let key = string_of_runes (take (nat (PrefixLength s)) runes);
                      hashSet = List.insert key hashSet
                  in Inr (edits s key 0 hashSet 0)))
         else (let hashSet = List.insert key hashSet
               in Inr (edits s key 0 hashSet 0)))"

subsection \<open>The dictionary store\<close>

text \<open>
  \<open>NewSymSpell\<close> takes the options after the functional options have been applied to
  \<open>DefaultOptions\<close>. \<open>addWordEntry_append\<close> is the tail of \<open>addWordEntry\<close>, from its
  second threshold test on; \<open>addDelete\<close> is the body of the loop of
  \<open>addDeletesForIndex\<close> and \<open>addDeletes\<close> the loop. \<open>createDictionaryEntries\<close> is a
  sequence of calls of \<open>createDictionaryEntry\<close>.
\<close>

record SymspellOptions =
  MaxDictionaryEditDistance_opt :: int
  PrefixLength_opt :: int
  CountThreshold_opt :: int
  FrequencyThreshold_opt :: int
  FrequencyMultiplier_opt :: int

definition DefaultOptions :: SymspellOptions where
  "DefaultOptions = \<lparr> MaxDictionaryEditDistance_opt = 2, PrefixLength_opt = 7,
     CountThreshold_opt = 1, FrequencyThreshold_opt = 1000, FrequencyMultiplier_opt = 10 \<rparr>"

definition DamerauLevenshtein :: string where
  "DamerauLevenshtein = ''DamerauLevenshtein''"

definition NewEditDistance :: "string \<Rightarrow> EditDistance" where
  "NewEditDistance T = \<lparr> Type = T \<rparr>"

definition newTopCache :: "int \<Rightarrow> topCache" where
  "newTopCache cap = \<lparr> capacity = cap, ll = [] \<rparr>"

definition NewSymSpell :: "SymspellOptions \<Rightarrow> string + SymSpell" where
  "NewSymSpell opts =
     (if MaxDictionaryEditDistance_opt opts < 0 then
        Inl ''maxDictionaryEditDistance cannot be negative''
      else if PrefixLength_opt opts < 1 then
        Inl ''prefixLength cannot be less than 1''
      else if PrefixLength_opt opts \<le> MaxDictionaryEditDistance_opt opts then
        Inl ''prefixLength must be greater than maxDictionaryEditDistance''
      else if CountThreshold_opt opts < 0 then
        Inl ''countThreshold cannot be negative''
      else if FrequencyThreshold_opt opts < 0 then
        Inl ''frequencyThreshold cannot be negative''
      else if FrequencyMultiplier_opt opts \<le> 1 then
        Inl ''frequencyMultiplier must be greater than 1''
      else Inr \<lparr> MaxDictionaryEditDistance = MaxDictionaryEditDistance_opt opts,
                 PrefixLength = PrefixLength_opt opts,
                 CountThreshold = CountThreshold_opt opts,
                 FrequencyThreshold = FrequencyThreshold_opt opts,
                 FrequencyMultiplier = FrequencyMultiplier_opt opts,
                 Words = Map.empty,
                 BelowThresholdWords = Map.empty,
                 DeletesIdx = Map.empty,
                 DeletesData = [],
                 words = [],
                 counts = [],
                 maxLength = 0,
                 distanceComparer = NewEditDistance DamerauLevenshtein,
                 topCache = newTopCache 128 \<rparr>)"

definition addWordEntry_append :: "SymSpell \<Rightarrow> string \<Rightarrow> uint32 \<Rightarrow> panic + bool \<times> SymSpell" where
  "addWordEntry_append s key count =
     (if int (unat count) < CountThreshold s then
        Inr (False, s\<lparr>BelowThresholdWords := (BelowThresholdWords s)(key \<mapsto> count)\<rparr>)
      else
        (let index = (of_nat (length (words s)) :: uint32);
             s = s\<lparr>words := words s @ [key]\<rparr>;
             s = s\<lparr>counts := counts s @ [count]\<rparr>;
             s = s\<lparr>Words := (Words s)(key \<mapsto> index)\<rparr>;
             s = (if int (length key) > maxLength s then s\<lparr>maxLength := int (length key)\<rparr> else s)
         in Inr (True, s)))"

definition addWordEntry :: "SymSpell \<Rightarrow> string \<Rightarrow> uint32 \<Rightarrow> panic + bool \<times> SymSpell" where
  "addWordEntry s key count =
     (if count = 0 \<and> CountThreshold s > 0 then Inr (False, s)
      else if CountThreshold s > 1 then
        (case BelowThresholdWords s key of
           Some countPrev \<Rightarrow>
             (let count = incrementCount count countPrev in
              if int (unat count) < CountThreshold s then
                Inr (False, s\<lparr>BelowThresholdWords := (BelowThresholdWords s)(key \<mapsto> count)\<rparr>)
              else
                addWordEntry_append
                  (s\<lparr>BelowThresholdWords := (BelowThresholdWords s)(key := None)\<rparr>) key count)
         | None \<Rightarrow> addWordEntry_append s key count)
      else
        (case Words s key of
           Some idx \<Rightarrow>
             (if unat idx < length (counts s) then
                Inr (False, s\<lparr>counts := (counts s)[unat idx := incrementCount count (counts s ! unat idx)]\<rparr>)
              else Inl IndexOutOfRange)
         | None \<Rightarrow> addWordEntry_append s key count))"

definition addDelete :: "uint32 \<Rightarrow> string \<Rightarrow> SymSpell \<Rightarrow> panic + SymSpell" where
  "addDelete index deleteWord s =
     (case DeletesIdx s deleteWord of
        Some v \<Rightarrow>
          (let offset = (ucast (drop_bit 32 v) :: uint32);
               len = (ucast v :: uint32);
               insertPos = offset + len;
               d = DeletesData s @ [0];
               lo = unat (insertPos + 1)
           in if lo > length d \<or> unat insertPos > length d then Inl IndexOutOfRange
              else
                (let src = drop (unat insertPos) d;
                     n = min (length d - lo) (length src);
                     d = take lo d @ take n src @ drop (lo + n) d
                 in if unat insertPos < length d then
                      (let d = d[unat insertPos := index];
                           idx = (\<lambda>k. case DeletesIdx s k of
                                    None \<Rightarrow> None
                                  | Some val \<Rightarrow>
                                      if k = deleteWord then Some val
                                      else (let oo = (ucast (drop_bit 32 val) :: uint32);
                                                l = (ucast val :: uint32)
                                            in if oo \<ge> insertPos
                                               then Some (push_bit 32 (ucast (oo + 1) :: uint64) OR ucast l)
                                               else Some val));
                           idx = idx(deleteWord \<mapsto> push_bit 32 (ucast offset :: uint64) OR ucast (len + 1))
                       in Inr (s\<lparr>DeletesData := d, DeletesIdx := idx\<rparr>))
                    else Inl IndexOutOfRange))
      | None \<Rightarrow>
          (let offset = (of_nat (length (DeletesData s)) :: uint32)
           in Inr (s\<lparr>DeletesData := DeletesData s @ [index],
                     DeletesIdx := (DeletesIdx s)(deleteWord \<mapsto> push_bit 32 (ucast offset :: uint64) OR 1)\<rparr>)))"

fun addDeletes :: "uint32 \<Rightarrow> string list \<Rightarrow> SymSpell \<Rightarrow> panic + SymSpell" where
  "addDeletes index [] s = Inr s"
| "addDeletes index (deleteWord # rest) s =
     (case addDelete index deleteWord s of
        Inl e \<Rightarrow> Inl e
      | Inr s' \<Rightarrow> addDeletes index rest s')"

definition addDeletesForIndex :: "SymSpell \<Rightarrow> string \<Rightarrow> uint32 \<Rightarrow> panic + SymSpell" where
  "addDeletesForIndex s key index =
     (case editsPrefix s key of
        Inl e \<Rightarrow> Inl e
      | Inr deleteWords \<Rightarrow> addDeletes index deleteWords s)"

definition createDictionaryEntry :: "SymSpell \<Rightarrow> string \<Rightarrow> uint32 \<Rightarrow> panic + bool \<times> SymSpell" where
  "createDictionaryEntry s key count =
     (case addWordEntry s key count of
        Inl e \<Rightarrow> Inl e
      | Inr (added, s') \<Rightarrow>
          if \<not> added then Inr (False, s')
          else (let index = (word_of_int (int (length (words s')) - 1) :: uint32)
                in case addDeletesForIndex s' key index of
                     Inl e \<Rightarrow> Inl e
                   | Inr s'' \<Rightarrow> Inr (True, s'')))"

fun createDictionaryEntries :: "SymSpell \<Rightarrow> (string \<times> uint32) list \<Rightarrow> panic + SymSpell" where
  "createDictionaryEntries s [] = Inr s"
| "createDictionaryEntries s ((key, count) # rest) =
     (case createDictionaryEntry s key count of
        Inl e \<Rightarrow> Inl e
      | Inr (added, s') \<Rightarrow> createDictionaryEntries s' rest)"

subsection \<open>Properties of the delete enumeration\<close>

declare edits.simps [simp del] edits_loop.simps [simp del]

lemma string_of_runes_append:
  "string_of_runes (xs @ ys) = string_of_runes xs @ string_of_runes ys"
  by (simp add: string_of_runes_def)

lemma runes_of_string_valid: "r \<in> set (runes_of_string w) \<Longrightarrow> valid_rune r"
  unfolding runes_of_string_def by (rule decode_valid)

lemma runes_of_string_Nil [simp]: "runes_of_string [] = []"
  by (simp add: runes_of_string_def)

lemma RuneCount_deleteWord:
  assumes "\<forall>r \<in> set runes. valid_rune r" "i < length runes"
  shows "RuneCountInString (string_of_runes (take i runes) @ string_of_runes (drop (i + 1) runes)) + 1
         = length runes"
proof -
  have v: "\<forall>r \<in> set (take i runes @ drop (i + 1) runes). valid_rune r"
    using assms(1) by (auto dest: in_set_takeD in_set_dropD)
  have "RuneCountInString (string_of_runes (take i runes) @ string_of_runes (drop (i + 1) runes))
        = length (take i runes @ drop (i + 1) runes)"
    unfolding RuneCountInString_def string_of_runes_append [symmetric]
    by (simp only: runes_of_string_of_runes [OF v])
  then show ?thesis using assms(2) by simp
qed

lemma edits_mono:
  "set deleteWords \<subseteq> set (edits s word editDistance deleteWords currentDistance)"
  "set deleteWords \<subseteq> set (edits_loop s runes editDistance deleteWords i)"
proof (induction s word editDistance deleteWords currentDistance
       and s runes editDistance deleteWords i rule: edits_edits_loop.induct)
  case (1 s word editDistance deleteWords currentDistance)
  then show ?case
    by (subst edits.simps) (auto simp: Let_def)
next
  case (2 s runes editDistance deleteWords i)
  show ?case
  proof (cases "i < length runes")
    case False
    then show ?thesis by (subst edits_loop.simps) simp
  next
    case True
    define deleteWord where "deleteWord = string_of_runes (take i runes) @ string_of_runes (drop (i + 1) runes)"
    define dw1 where "dw1 = List.insert deleteWord deleteWords"
    define dw2 where "dw2 = (if editDistance < MaxDictionaryEditDistance s
                            then edits s deleteWord editDistance dw1 i else dw1)"
    have a: "set deleteWords \<subseteq> set dw1" by (auto simp: dw1_def)
    have b: "set dw1 \<subseteq> set dw2"
      using 2(1) [OF True deleteWord_def dw1_def] by (auto simp: dw2_def)
    have c: "set dw2 \<subseteq> set (edits_loop s runes editDistance dw2 (i + 1))"
      using 2(2) [OF True deleteWord_def dw1_def dw2_def] .
    have "edits_loop s runes editDistance deleteWords i = edits_loop s runes editDistance dw2 (i + 1)"
      using True by (subst edits_loop.simps) (simp add: Let_def dw2_def dw1_def deleteWord_def)
    with a b c show ?thesis by auto
  qed
qed

lemma edits_bound:
  "editDistance < MaxDictionaryEditDistance s \<Longrightarrow>
     x \<in> set (edits s word editDistance deleteWords currentDistance) \<Longrightarrow>
     x \<in> set deleteWords \<or>
     int (RuneCountInString word) \<le> int (RuneCountInString x) + (MaxDictionaryEditDistance s - editDistance)"
  "editDistance \<le> MaxDictionaryEditDistance s \<Longrightarrow> \<forall>r \<in> set runes. valid_rune r \<Longrightarrow>
     x \<in> set (edits_loop s runes editDistance deleteWords i) \<Longrightarrow>
     x \<in> set deleteWords \<or>
     int (length runes) \<le> int (RuneCountInString x) + (MaxDictionaryEditDistance s - editDistance + 1)"
proof (induction s word editDistance deleteWords currentDistance
       and s runes editDistance deleteWords i arbitrary: x and x rule: edits_edits_loop.induct)
  case (1 s word editDistance deleteWords currentDistance)
  show ?case
  proof (cases "length (runes_of_string word) = 0")
    case True
    then have "edits s word editDistance deleteWords currentDistance
               = (if int (RuneCountInString word) \<le> MaxDictionaryEditDistance s
                  then List.insert [] deleteWords else deleteWords)"
      by (subst edits.simps) (simp add: Let_def)
    with 1(2,3) True show ?thesis
      by (auto simp: RuneCountInString_def split: if_splits)
  next
    case False
    then have e: "edits s word editDistance deleteWords currentDistance
               = edits_loop s (runes_of_string word) (editDistance + 1) deleteWords currentDistance"
      by (subst edits.simps) (simp add: Let_def)
    have v: "\<forall>r \<in> set (runes_of_string word). valid_rune r"
      by (auto dest: runes_of_string_valid)
    have "x \<in> set deleteWords \<or>
          int (length (runes_of_string word))
          \<le> int (RuneCountInString x) + (MaxDictionaryEditDistance s - (editDistance + 1) + 1)"
      using 1(1) [OF refl refl False _ v, of x] 1(2,3) e by simp
    then show ?thesis by (simp add: RuneCountInString_def)
  qed
next
  case (2 s runes editDistance deleteWords i)
  show ?case
  proof (cases "i < length runes")
    case False
    with 2(5) show ?thesis by (subst (asm) edits_loop.simps) simp
  next
    case True
    define deleteWord where "deleteWord = string_of_runes (take i runes) @ string_of_runes (drop (i + 1) runes)"
    define dw1 where "dw1 = List.insert deleteWord deleteWords"
    define dw2 where "dw2 = (if editDistance < MaxDictionaryEditDistance s
                            then edits s deleteWord editDistance dw1 i else dw1)"
    have rc: "int (RuneCountInString deleteWord) + 1 = int (length runes)"
      using RuneCount_deleteWord [OF 2(4) True] unfolding deleteWord_def by linarith
    have e: "edits_loop s runes editDistance deleteWords i = edits_loop s runes editDistance dw2 (i + 1)"
      using True by (subst edits_loop.simps) (simp add: Let_def dw2_def dw1_def deleteWord_def)
    have "x \<in> set dw2 \<or>
          int (length runes) \<le> int (RuneCountInString x) + (MaxDictionaryEditDistance s - editDistance + 1)"
      using 2(2) [OF True deleteWord_def dw1_def dw2_def 2(3,4), of x] 2(5) e by simp
    moreover have "x \<in> set deleteWords \<or>
          int (length runes) \<le> int (RuneCountInString x) + (MaxDictionaryEditDistance s - editDistance + 1)"
      if x2: "x \<in> set dw2"
    proof (cases "editDistance < MaxDictionaryEditDistance s")
      case False
      with x2 have "x \<in> set dw1" by (simp add: dw2_def)
      then show ?thesis using rc 2(3) by (auto simp: dw1_def)
    next
      case lt: True
      with x2 have "x \<in> set (edits s deleteWord editDistance dw1 i)" by (simp add: dw2_def)
      from 2(1) [OF True deleteWord_def dw1_def lt lt this]
      have "x \<in> set dw1 \<or> int (RuneCountInString deleteWord)
              \<le> int (RuneCountInString x) + (MaxDictionaryEditDistance s - editDistance)" .
      then show ?thesis using rc 2(3) by (auto simp: dw1_def)
    qed
    ultimately show ?thesis by blast
  qed
qed

definition truncatedKey :: "SymSpell \<Rightarrow> string \<Rightarrow> string" where
  "truncatedKey s key =
     (if int (length (runes_of_string key)) > PrefixLength s
      then string_of_runes (take (nat (PrefixLength s)) (runes_of_string key))
      else key)"

definition defaultStore :: SymSpell where
  "defaultStore = (case NewSymSpell DefaultOptions of Inr s \<Rightarrow> s | Inl e \<Rightarrow> undefined)"

definition exactOnlyStore :: SymSpell where
  "exactOnlyStore =
     (case NewSymSpell (DefaultOptions\<lparr>MaxDictionaryEditDistance_opt := 0, PrefixLength_opt := 1\<rparr>)
      of Inr s \<Rightarrow> s | Inl e \<Rightarrow> undefined)"

lemma RuneCount_truncated:
  assumes "int (length (runes_of_string key)) > p" "0 \<le> p"
  shows "RuneCountInString (string_of_runes (take (nat p) (runes_of_string key))) = nat p"
proof -
  have v: "\<forall>r \<in> set (take (nat p) (runes_of_string key)). valid_rune r"
    by (auto dest: in_set_takeD runes_of_string_valid)
  show ?thesis
    unfolding RuneCountInString_def runes_of_string_of_runes [OF v] using assms by simp
qed

lemma editsPrefix_cases:
  assumes "0 \<le> PrefixLength s"
  shows "editsPrefix s key =
         Inr (edits s (truncatedKey s key) 0
                (List.insert (truncatedKey s key)
                   (if int (RuneCountInString key) \<le> MaxDictionaryEditDistance s then [[]] else [])) 0)"
  using assms unfolding editsPrefix_def truncatedKey_def Let_def by simp

lemma RuneCount_truncatedKey:
  assumes "0 \<le> PrefixLength s"
  shows "int (RuneCountInString (truncatedKey s key))
         = min (int (RuneCountInString key)) (PrefixLength s)"
proof (cases "int (length (runes_of_string key)) > PrefixLength s")
  case True
  then show ?thesis
    using RuneCount_truncated [OF True assms] assms
    by (simp add: truncatedKey_def) (simp add: RuneCountInString_def)
next
  case False
  then show ?thesis by (simp add: truncatedKey_def RuneCountInString_def)
qed

lemma RuneCount_Nil_iff: "RuneCountInString w = 0 \<longleftrightarrow> w = []"
proof
  assume "RuneCountInString w = 0"
  then have "decode (map of_char w) = []" by (simp add: RuneCountInString_def runes_of_string_def)
  then show "w = []" by (cases w) (auto simp: Let_def split: if_splits prod.splits)
qed (simp add: RuneCountInString_def)

lemma edits_loop_flat:
  assumes "\<not> editDistance < MaxDictionaryEditDistance s" "\<forall>r \<in> set runes. valid_rune r"
    and "x \<in> set (edits_loop s runes editDistance deleteWords i)"
  shows "x \<in> set deleteWords \<or> RuneCountInString x + 1 = length runes"
  using assms(3)
proof (induction "length runes - i" arbitrary: i deleteWords)
  case 0
  then show ?case by (subst (asm) edits_loop.simps) simp
next
  case (Suc n)
  then have lt: "i < length runes" by simp
  define deleteWord where
    "deleteWord = string_of_runes (take i runes) @ string_of_runes (drop (i + 1) runes)"
  have rc: "RuneCountInString deleteWord + 1 = length runes"
    unfolding deleteWord_def by (rule RuneCount_deleteWord [OF assms(2) lt])
  have e: "edits_loop s runes editDistance deleteWords i
           = edits_loop s runes editDistance (List.insert deleteWord deleteWords) (i + 1)"
    using lt assms(1) by (subst edits_loop.simps) (simp add: Let_def deleteWord_def)
  have "n = length runes - (i + 1)" using Suc.hyps(2) by simp
  have "x \<in> set (edits_loop s runes editDistance (List.insert deleteWord deleteWords) (i + 1))"
    using Suc.prems e by simp
  from Suc.hyps(1) [OF \<open>n = length runes - (i + 1)\<close> this]
  have "x \<in> set (List.insert deleteWord deleteWords) \<or> RuneCountInString x + 1 = length runes" .
  then show ?case using rc by auto
qed

lemma edits_loop_single:
  assumes "length runes = 1"
  shows "[] \<in> set (edits_loop s runes editDistance deleteWords 0)"
proof -
  define dw1 where "dw1 = List.insert [] deleteWords"
  define dw2 where "dw2 = (if editDistance < MaxDictionaryEditDistance s
                            then edits s [] editDistance dw1 0 else dw1)"
  have d: "string_of_runes (take 0 runes) @ string_of_runes (drop (0 + 1) runes) = []"
    using assms by (simp add: string_of_runes_def)
  have e: "edits_loop s runes editDistance deleteWords 0 = edits_loop s runes editDistance dw2 (0 + 1)"
    using assms by (subst edits_loop.simps) (simp only: d Let_def dw2_def dw1_def, simp)
  have "[] \<in> set dw1" by (simp add: dw1_def)
  then have "[] \<in> set dw2"
    using edits_mono(1) [of dw1 s "[]" editDistance 0] by (auto simp: dw2_def)
  then show ?thesis
    unfolding e using edits_mono(2) [of dw2 s runes editDistance "0 + 1"] by blast
qed

text \<open>
  Claim C6. Whenever \<open>PrefixLength\<close> is not negative, \<open>editsPrefix\<close> returns a set of
  delete variants that contains the key truncated to its first \<open>PrefixLength\<close> code
  points, and contains the empty string if the key has at most
  \<open>MaxDictionaryEditDistance\<close> code points. Under the configuration invariant
  \<open>PrefixLength > MaxDictionaryEditDistance\<close> the set contains the empty string if and
  only if the key has at most \<open>MaxDictionaryEditDistance\<close> code points or the truncated
  key has at most one code point. With \<open>MaxDictionaryEditDistance \<ge> 1\<close> the second case
  is a case of the first, and the claim holds as it is stated. With
  \<open>MaxDictionaryEditDistance = 0\<close> it does not: \<open>edits\<close> removes one code point before
  it compares the depth with the maximum, so a truncated key of one code point yields
  the empty string.
\<close>

theorem editsPrefix_contract:
  assumes "0 \<le> PrefixLength s"
  shows "\<exists>ds. editsPrefix s key = Inr ds \<and> truncatedKey s key \<in> set ds \<and>
           (int (RuneCountInString key) \<le> MaxDictionaryEditDistance s \<longrightarrow> [] \<in> set ds) \<and>
           (MaxDictionaryEditDistance s < PrefixLength s \<longrightarrow>
              ([] \<in> set ds \<longleftrightarrow>
                 int (RuneCountInString key) \<le> MaxDictionaryEditDistance s \<or>
                 RuneCountInString (truncatedKey s key) \<le> 1)) \<and>
           (1 \<le> MaxDictionaryEditDistance s \<and> MaxDictionaryEditDistance s < PrefixLength s \<longrightarrow>
              ([] \<in> set ds \<longleftrightarrow> int (RuneCountInString key) \<le> MaxDictionaryEditDistance s))"
proof -
  define tk where "tk = truncatedKey s key"
  define hs where "hs = List.insert tk
                   (if int (RuneCountInString key) \<le> MaxDictionaryEditDistance s then [[]] else [])"
  define ds where "ds = edits s tk 0 hs 0"
  note p = assms
  have e: "editsPrefix s key = Inr ds"
    unfolding ds_def hs_def tk_def by (rule editsPrefix_cases [OF p])
  have sub: "set hs \<subseteq> set ds" unfolding ds_def by (rule edits_mono(1))
  have t: "tk \<in> set ds" using sub by (auto simp: hs_def)
  have rt: "int (RuneCountInString tk) = min (int (RuneCountInString key)) (PrefixLength s)"
    unfolding tk_def by (rule RuneCount_truncatedKey [OF p])
  have fwd: "[] \<in> set ds" if "int (RuneCountInString key) \<le> MaxDictionaryEditDistance s"
  proof -
    from that have "[] \<in> set hs" by (simp add: hs_def)
    with sub show ?thesis by blast
  qed
  have short: "[] \<in> set ds" if le: "RuneCountInString tk \<le> 1"
  proof (cases "RuneCountInString tk = 0")
    case True
    then have "tk = []" by (simp add: RuneCount_Nil_iff)
    then show ?thesis using t by simp
  next
    case False
    then have one: "length (runes_of_string tk) = 1"
      using le unfolding RuneCountInString_def by linarith
    have "runes_of_string tk \<noteq> []" using one by auto
    then have "ds = edits_loop s (runes_of_string tk) (0 + 1) hs 0"
      unfolding ds_def by (subst edits.simps) (simp add: Let_def)
    then show ?thesis using edits_loop_single [OF one] by simp
  qed
  have bwd: "int (RuneCountInString key) \<le> MaxDictionaryEditDistance s \<or> RuneCountInString tk \<le> 1"
    if inv: "MaxDictionaryEditDistance s < PrefixLength s" and mem: "[] \<in> set ds"
  proof (cases "RuneCountInString tk \<le> 1")
    case True
    then show ?thesis by simp
  next
    case False
    then have ne: "tk \<noteq> []" by (auto simp: RuneCountInString_def)
    have hs_mem: "int (RuneCountInString key) \<le> MaxDictionaryEditDistance s" if "[] \<in> set hs"
      using that ne by (auto simp: hs_def split: if_splits)
    show ?thesis
    proof (cases "0 < MaxDictionaryEditDistance s")
      case True
      have "[] \<in> set hs \<or>
         int (RuneCountInString tk) \<le> int (RuneCountInString []) + (MaxDictionaryEditDistance s - 0)"
        using edits_bound(1) [OF True, of "[]" tk hs 0] mem unfolding ds_def by simp
      then have "[] \<in> set hs \<or> int (RuneCountInString tk) \<le> MaxDictionaryEditDistance s"
        by (simp add: RuneCountInString_def)
      then show ?thesis using hs_mem rt inv by linarith
    next
      case nonpos: False
      have len: "runes_of_string tk \<noteq> []"
        using False by (auto simp: RuneCountInString_def)
      have v: "\<forall>r \<in> set (runes_of_string tk). valid_rune r"
        by (auto dest: runes_of_string_valid)
      have "ds = edits_loop s (runes_of_string tk) (0 + 1) hs 0"
        unfolding ds_def using len by (subst edits.simps) (simp add: Let_def)
      then have "[] \<in> set (edits_loop s (runes_of_string tk) (0 + 1) hs 0)" using mem by simp
      from edits_loop_flat [OF _ v this] nonpos
      have "[] \<in> set hs \<or> RuneCountInString [] + 1 = length (runes_of_string tk)" by simp
      then have "[] \<in> set hs" using False by (auto simp: RuneCountInString_def)
      then show ?thesis using hs_mem by simp
    qed
  qed
  have strict: "int (RuneCountInString key) \<le> MaxDictionaryEditDistance s"
    if "1 \<le> MaxDictionaryEditDistance s" "MaxDictionaryEditDistance s < PrefixLength s"
      "RuneCountInString tk \<le> 1"
    using that rt by linarith
  show ?thesis
    using e t fwd short bwd strict unfolding tk_def [symmetric] by blast
qed

lemma defaultStore_simps:
  "MaxDictionaryEditDistance defaultStore = 2" "PrefixLength defaultStore = 7"
  by (simp_all add: defaultStore_def NewSymSpell_def DefaultOptions_def)

lemma exactOnlyStore_simps:
  "MaxDictionaryEditDistance exactOnlyStore = 0" "PrefixLength exactOnlyStore = 1"
  by (simp_all add: exactOnlyStore_def NewSymSpell_def DefaultOptions_def)

lemma rune_abc: "runes_of_string ''abc'' = [97, 98, 99]" "runes_of_string ''a'' = [97]"
  by (simp_all add: runes_of_string_def)

text \<open>
  The theorem at the default configuration (\<open>MaxDictionaryEditDistance = 2\<close>,
  \<open>PrefixLength = 7\<close>) and the key \<open>abc\<close>, where the claim holds.
\<close>

theorem editsPrefix_contract_witness:
  "0 \<le> PrefixLength defaultStore \<and>
   1 \<le> MaxDictionaryEditDistance defaultStore \<and>
   MaxDictionaryEditDistance defaultStore < PrefixLength defaultStore \<and>
   (\<exists>ds. editsPrefix defaultStore ''abc'' = Inr ds \<and> ''abc'' \<in> set ds \<and> [] \<notin> set ds)"
  using editsPrefix_contract [of defaultStore "''abc''"]
  by (simp add: defaultStore_simps truncatedKey_def RuneCountInString_def rune_abc)

text \<open>
  The claim as stated, at \<open>MaxDictionaryEditDistance = 0\<close>, \<open>PrefixLength = 1\<close> (a
  configuration \<open>NewSymSpell\<close> accepts) and the key \<open>a\<close>: the key has one code point,
  more than the maximum, and yet the empty string is among the variants. No deletion
  is within an edit distance of 0, and the two tests of \<open>editsPrefix\<close> and \<open>edits\<close>
  that guard the empty string both refuse it here.
\<close>

theorem editsPrefix_empty_counterexample:
  "NewSymSpell (DefaultOptions\<lparr>MaxDictionaryEditDistance_opt := 0, PrefixLength_opt := 1\<rparr>)
     = Inr exactOnlyStore \<and>
   MaxDictionaryEditDistance exactOnlyStore < PrefixLength exactOnlyStore \<and>
   \<not> int (RuneCountInString ''a'') \<le> MaxDictionaryEditDistance exactOnlyStore \<and>
   editsPrefix exactOnlyStore ''a'' = Inr [[], ''a'']"
  by (simp add: exactOnlyStore_simps editsPrefix_def RuneCountInString_def rune_abc
      edits.simps edits_loop.simps string_of_runes_def)
     (simp add: exactOnlyStore_def NewSymSpell_def DefaultOptions_def)

subsection \<open>Re-adding a term above the count threshold\<close>

definition thresholdTwoStore :: SymSpell where
  "thresholdTwoStore =
     (case NewSymSpell (DefaultOptions\<lparr>CountThreshold_opt := 2\<rparr>)
      of Inr s \<Rightarrow> s | Inl e \<Rightarrow> undefined)"

lemma thresholdTwoStore_eq:
  "thresholdTwoStore =
     \<lparr> MaxDictionaryEditDistance = 2, PrefixLength = 7, CountThreshold = 2,
       FrequencyThreshold = 1000, FrequencyMultiplier = 10,
       Words = Map.empty, BelowThresholdWords = Map.empty, DeletesIdx = Map.empty,
       DeletesData = [], words = [], counts = [], maxLength = 0,
       distanceComparer = NewEditDistance DamerauLevenshtein, topCache = newTopCache 128 \<rparr>"
  by (simp add: thresholdTwoStore_def NewSymSpell_def DefaultOptions_def)

text \<open>
  Claim C5, at the input where the code departs from it. With \<open>CountThreshold = 2\<close>
  the branch of \<open>addWordEntry\<close> that sums the count of a term already in the main
  store is never reached (it is the \<open>else\<close> of the test \<open>CountThreshold > 1\<close>), so
  adding the term \<open>a\<close> twice with count 5 appends it twice: the term occupies the
  indices 0 and 1, and \<open>Words[words[0]] = 1\<close>.
\<close>

theorem createDictionaryEntry_readd_duplicates:
  "NewSymSpell (DefaultOptions\<lparr>CountThreshold_opt := 2\<rparr>) = Inr thresholdTwoStore \<and>
   (case createDictionaryEntries thresholdTwoStore [(''a'', 5), (''a'', 5)] of
      Inl e \<Rightarrow> False
    | Inr s \<Rightarrow> words s = [''a'', ''a''] \<and> counts s = [5, 5] \<and> Words s (words s ! 0) = Some 1)"
proof (intro conjI)
  show "NewSymSpell (DefaultOptions\<lparr>CountThreshold_opt := 2\<rparr>) = Inr thresholdTwoStore"
    by (simp add: thresholdTwoStore_def NewSymSpell_def DefaultOptions_def)
  show "case createDictionaryEntries thresholdTwoStore [(''a'', 5), (''a'', 5)] of
      Inl e \<Rightarrow> False
    | Inr s \<Rightarrow> words s = [''a'', ''a''] \<and> counts s = [5, 5] \<and> Words s (words s ! 0) = Some 1"
    by code_simp
qed

subsection \<open>The distance kernel\<close>

text \<open>
  The four kernels of the source are two texts, each written once for \<open>string\<close> and
  once for \<open>[]rune\<close>; the embedding is polymorphic in the type of the symbols, and
  the byte and the rune kernels are its instances. The body of the inner loop is the
  same text in all four and is written once, as \<open>dlCell\<close>. The loops are recursive
  functions over their counters: \<open>_init\<close> fills the first row, \<open>_cols\<close> is the inner
  loop and \<open>_rows\<close> the outer loop.

  \<open>getIntSlice\<close> takes a slice from a \<open>sync.Pool\<close>: the slice may be a recycled one
  whose cells hold what an earlier call left there. The kernels therefore take as
  their first argument the three values that \<open>intSlicePool.Get()\<close> hands out, each
  with the contents of its whole capacity, and the theorems hold for every such
  triple. Releasing the slices (\<open>putIntSlice\<close>) has no effect on the result.

  Inside the loops every index is between 0 and \<open>n\<close> by the loop bounds, except the
  two sentinel writes of the bounded kernel, which are checked; the columns are
  entered only with \<open>0 \<le> k\<close> (a call with \<open>k < 0\<close> returns before), so \<open>i - k\<close> does
  not overflow, while \<open>k + 1\<close> and \<open>i + k\<close> can, and the cell values are added in 64
  bits.
\<close>

type_synonym intSlices = "int list \<times> int list \<times> int list"

definition getIntSlice :: "int list \<Rightarrow> nat \<Rightarrow> int list" where
  "getIntSlice v sz = (if length v < sz then replicate sz 0 else take sz v)"

definition dlCell :: "'a list \<Rightarrow> 'a list \<Rightarrow> nat \<Rightarrow> nat \<Rightarrow> int list \<Rightarrow> int list \<Rightarrow> int list \<Rightarrow> int" where
  "dlCell a b i j prev2 prev cur =
     (let cost = (if a ! (i - 1) \<noteq> b ! (j - 1) then 1 else 0);
          del = add64 (prev ! j) 1;
          ins = add64 (cur ! (j - 1)) 1;
          sub = add64 (prev ! (j - 1)) cost;
          dist = min del (min ins sub)
      in if i > 1 \<and> j > 1 \<and> a ! (i - 1) = b ! (j - 2) \<and> a ! (i - 2) = b ! (j - 1)
         then (let trans = add64 (prev2 ! (j - 2)) cost
               in if trans < dist then trans else dist)
         else dist)"

function damerauLevenshteinDistance_init :: "nat \<Rightarrow> nat \<Rightarrow> int list \<Rightarrow> int list" where
  "damerauLevenshteinDistance_init n j prev =
     (if j \<le> n then damerauLevenshteinDistance_init n (j + 1) (prev[j := int j]) else prev)"
  by pat_completeness auto
termination
  by (relation "measure (\<lambda>(n, j, prev). n + 1 - j)") auto

function damerauLevenshteinDistance_cols ::
  "'a list \<Rightarrow> 'a list \<Rightarrow> nat \<Rightarrow> int list \<Rightarrow> int list \<Rightarrow> nat \<Rightarrow> int list \<Rightarrow> int list" where
  "damerauLevenshteinDistance_cols a b i prev2 prev j cur =
     (if j \<le> length b then
        damerauLevenshteinDistance_cols a b i prev2 prev (j + 1)
          (cur[j := dlCell a b i j prev2 prev cur])
      else cur)"
  by pat_completeness auto
termination
  by (relation "measure (\<lambda>(a, b, i, prev2, prev, j, cur). length b + 1 - j)") auto

function damerauLevenshteinDistance_rows ::
  "'a list \<Rightarrow> 'a list \<Rightarrow> nat \<Rightarrow> int list \<Rightarrow> int list \<Rightarrow> int list \<Rightarrow> int" where
  "damerauLevenshteinDistance_rows a b i prev2 prev cur =
     (if i \<le> length a then
        (let cur = cur[0 := int i];
             cur = damerauLevenshteinDistance_cols a b i prev2 prev 1 cur
         in damerauLevenshteinDistance_rows a b (i + 1) prev cur prev2)
      else prev ! length b)"
  by pat_completeness auto
termination
  by (relation "measure (\<lambda>(a, b, i, prev2, prev, cur). length a + 1 - i)") auto

definition damerauLevenshteinDistance :: "intSlices \<Rightarrow> 'a list \<Rightarrow> 'a list \<Rightarrow> int" where
  "damerauLevenshteinDistance pool a b =
     (let m = length a; n = length b in
      if m = 0 then int n
      else if n = 0 then int m
      else (case pool of (v2, v1, v0) \<Rightarrow>
        (let prev2 = getIntSlice v2 (n + 1);
             prev = getIntSlice v1 (n + 1);
             cur = getIntSlice v0 (n + 1);
             prev = damerauLevenshteinDistance_init n 0 prev
         in damerauLevenshteinDistance_rows a b 1 prev2 prev cur)))"

function damerauLevenshteinDistanceMax_init :: "int \<Rightarrow> int \<Rightarrow> nat \<Rightarrow> nat \<Rightarrow> int list \<Rightarrow> int list" where
  "damerauLevenshteinDistanceMax_init k limit n j prev =
     (if j \<le> n then
        damerauLevenshteinDistanceMax_init k limit n (j + 1)
          (if int j \<le> k then prev[j := int j] else prev[j := limit])
      else prev)"
  by pat_completeness auto
termination
  by (relation "measure (\<lambda>(k, limit, n, j, prev). n + 1 - j)") auto

function damerauLevenshteinDistanceMax_cols ::
  "'a list \<Rightarrow> 'a list \<Rightarrow> nat \<Rightarrow> int list \<Rightarrow> int list \<Rightarrow> int \<Rightarrow> nat \<Rightarrow> int list \<times> int
   \<Rightarrow> int list \<times> int" where
  "damerauLevenshteinDistanceMax_cols a b i prev2 prev jEnd j (cur, rowMin) =
     (if int j \<le> jEnd then
        (let dist = dlCell a b i j prev2 prev cur;
             cur = cur[j := dist];
             rowMin = (if dist < rowMin then dist else rowMin)
         in damerauLevenshteinDistanceMax_cols a b i prev2 prev jEnd (j + 1) (cur, rowMin))
      else (cur, rowMin))"
  by pat_completeness auto
termination
  by (relation "measure (\<lambda>(a, b, i, prev2, prev, jEnd, j, c). nat (jEnd + 1 - int j))") auto

function damerauLevenshteinDistanceMax_rows ::
  "'a list \<Rightarrow> 'a list \<Rightarrow> int \<Rightarrow> int \<Rightarrow> nat \<Rightarrow> int list \<Rightarrow> int list \<Rightarrow> int list \<Rightarrow> panic + int" where
  "damerauLevenshteinDistanceMax_rows a b k limit i prev2 prev cur =
     (if i \<le> length a then
        (let n = int (length b);
             cur = cur[0 := int i];
             jStart = (if int i > k then nat (int i - k) else 1);
             jEnd = (if n > add64 (int i) k then add64 (int i) k else n)
         in if jStart > 1 \<and> \<not> jStart - 1 < length cur then Inl IndexOutOfRange
            else
              (let cur = (if jStart > 1 then cur[jStart - 1 := limit] else cur);
                   (cur, rowMin) =
                      damerauLevenshteinDistanceMax_cols a b i prev2 prev jEnd jStart (cur, limit)
               in if rowMin > k then Inr (add64 k 1)
                  else if jEnd < n then
                    (if 0 \<le> jEnd + 1 then
                       damerauLevenshteinDistanceMax_rows a b k limit (i + 1)
                         prev (cur[nat (jEnd + 1) := limit]) prev2
                     else Inl IndexOutOfRange)
                  else damerauLevenshteinDistanceMax_rows a b k limit (i + 1) prev cur prev2))
      else Inr (if prev ! length b > k then add64 k 1 else prev ! length b))"
  by pat_completeness auto
termination
  by (relation "measure (\<lambda>(a, b, k, limit, i, prev2, prev, cur). length a + 1 - i)") auto

definition damerauLevenshteinDistanceMax :: "intSlices \<Rightarrow> 'a list \<Rightarrow> 'a list \<Rightarrow> int \<Rightarrow> panic + int" where
  "damerauLevenshteinDistanceMax pool a b k =
     (let m = length a; n = length b in
      if m = 0 then Inr (if int n \<le> k then int n else add64 k 1)
      else if n = 0 then Inr (if int m \<le> k then int m else add64 k 1)
      else (let d = int m - int n in
        if d > k \<or> d < wrap64 (- k) then Inr (add64 k 1)
        else (case pool of (v2, v1, v0) \<Rightarrow>
          (let prev2 = getIntSlice v2 (n + 1);
               prev = getIntSlice v1 (n + 1);
               cur = getIntSlice v0 (n + 1);
               limit = add64 k 1;
               prev = damerauLevenshteinDistanceMax_init k limit n 0 prev
           in damerauLevenshteinDistanceMax_rows a b k limit 1 prev2 prev cur))))"

definition damerauLevenshteinDistanceRunes :: "intSlices \<Rightarrow> rune list \<Rightarrow> rune list \<Rightarrow> int" where
  "damerauLevenshteinDistanceRunes pool a b = damerauLevenshteinDistance pool a b"

definition damerauLevenshteinDistanceMaxRunes ::
  "intSlices \<Rightarrow> rune list \<Rightarrow> rune list \<Rightarrow> int \<Rightarrow> panic + int" where
  "damerauLevenshteinDistanceMaxRunes pool a b k = damerauLevenshteinDistanceMax pool a b k"

fun isASCII :: "string \<Rightarrow> bool" where
  "isASCII [] = True"
| "isASCII (c # s) = (if (of_char c :: nat) \<ge> 0x80 then False else isASCII s)"


definition EditDistance_DistanceMax ::
  "intSlices \<Rightarrow> EditDistance \<Rightarrow> string \<Rightarrow> string \<Rightarrow> int \<Rightarrow> panic + int" where
  "EditDistance_DistanceMax pool d a b maxDistance =
     (if Type d = DamerauLevenshtein then
        (if isASCII a \<and> isASCII b then damerauLevenshteinDistanceMax pool a b maxDistance
         else damerauLevenshteinDistanceMaxRunes pool (runes_of_string a) (runes_of_string b)
                maxDistance)
      else Inr 0)"
subsection \<open>The table the rolling rows hold\<close>

text \<open>
  \<open>dlTable a b i j\<close> is the cell \<open>(i, j)\<close> of the full table of the recurrence of
  \<open>dlCell\<close>, computed on the unbounded integers. It is not a function of the source:
  it states what the three rows hold.
\<close>

fun dlTable :: "'a list \<Rightarrow> 'a list \<Rightarrow> nat \<Rightarrow> nat \<Rightarrow> int" where
  "dlTable a b 0 j = int j"
| "dlTable a b (Suc i) 0 = int (Suc i)"
| "dlTable a b (Suc i) (Suc j) =
     (let cost = (if a ! i \<noteq> b ! j then 1 else 0);
          dist = min (dlTable a b i (Suc j) + 1)
                   (min (dlTable a b (Suc i) j + 1) (dlTable a b i j + cost))
      in if i > 0 \<and> j > 0 \<and> a ! i = b ! (j - 1) \<and> a ! (i - 1) = b ! j
         then min (dlTable a b (i - 1) (j - 1) + cost) dist
         else dist)"

lemma dlTable_0_right [simp]: "dlTable a b i 0 = int i"
  by (cases i) simp_all






declare dlTable.simps(3) [simp del]


subsection \<open>The unbounded kernel computes the table\<close>



lemma getIntSlice_length [simp]: "length (getIntSlice v n) = n"
  by (simp add: getIntSlice_def)

declare damerauLevenshteinDistance_init.simps [simp del]
declare damerauLevenshteinDistance_cols.simps [simp del]
declare damerauLevenshteinDistance_rows.simps [simp del]
declare damerauLevenshteinDistanceMax_init.simps [simp del]
declare damerauLevenshteinDistanceMax_cols.simps [simp del]
declare damerauLevenshteinDistanceMax_rows.simps [simp del]




subsection \<open>The bounded kernel computes the table up to the bound\<close>









subsection \<open>The byte kernel and the rune kernel\<close>

lemma dlCell_map:
  assumes "inj f" "1 \<le> i" "i \<le> length a" "1 \<le> j" "j \<le> length b"
  shows "dlCell (map f a) (map f b) i j prev2 prev cur = dlCell a b i j prev2 prev cur"
proof -
  have e: "(f x = f y) = (x = y)" for x y using assms(1) by (simp add: inj_eq)
  have "i - 1 < length a" "j - 1 < length b" "i - 2 < length a" "j - 2 < length b"
    using assms by linarith+
  then show ?thesis
    unfolding dlCell_def by (simp add: e)
qed

lemma damerauLevenshteinDistance_cols_map:
  assumes "inj f" "1 \<le> i" "i \<le> length a" "1 \<le> j"
  shows "damerauLevenshteinDistance_cols (map f a) (map f b) i prev2 prev j cur
         = damerauLevenshteinDistance_cols a b i prev2 prev j cur"
  using assms(4)
proof (induction "length b + 1 - j" arbitrary: j cur)
  case 0
  then have "\<not> j \<le> length b" by linarith
  then show ?case by (subst (1 2) damerauLevenshteinDistance_cols.simps) simp
next
  case (Suc x)
  then have le: "j \<le> length b" by linarith
  have x: "x = length b + 1 - (j + 1)" using Suc(2) by linarith
  show ?case
    using le Suc(1) [OF x] dlCell_map [OF assms(1,2,3) Suc(3) le]
    by (subst (1 2) damerauLevenshteinDistance_cols.simps) simp
qed

lemma damerauLevenshteinDistance_rows_map:
  assumes "inj f" "1 \<le> i"
  shows "damerauLevenshteinDistance_rows (map f a) (map f b) i prev2 prev cur
         = damerauLevenshteinDistance_rows a b i prev2 prev cur"
  using assms(2)
proof (induction "length a + 1 - i" arbitrary: i prev2 prev cur)
  case 0
  then have "\<not> i \<le> length a" by linarith
  then show ?case by (subst (1 2) damerauLevenshteinDistance_rows.simps) simp
next
  case (Suc x)
  then have le: "i \<le> length a" by linarith
  have x: "x = length a + 1 - (i + 1)" using Suc(2) by linarith
  show ?case
    using le Suc(1) [OF x] damerauLevenshteinDistance_cols_map [OF assms(1) Suc(3) le]
    by (subst (1 2) damerauLevenshteinDistance_rows.simps) (simp add: Let_def)
qed

lemma damerauLevenshteinDistance_map:
  assumes "inj f"
  shows "damerauLevenshteinDistance pool (map f a) (map f b) = damerauLevenshteinDistance pool a b"
  unfolding damerauLevenshteinDistance_def
  by (simp add: damerauLevenshteinDistance_rows_map [OF assms] Let_def)

lemma damerauLevenshteinDistanceMax_cols_map:
  assumes "inj f" "1 \<le> i" "i \<le> length a" "1 \<le> j" "jEnd \<le> int (length b)"
  shows "damerauLevenshteinDistanceMax_cols (map f a) (map f b) i prev2 prev jEnd j c
         = damerauLevenshteinDistanceMax_cols a b i prev2 prev jEnd j c"
  using assms(4)
proof (induction "nat (jEnd + 1 - int j)" arbitrary: j c)
  case 0
  then have "\<not> int j \<le> jEnd" by linarith
  moreover obtain cur rowMin where c: "c = (cur, rowMin)" by (cases c)
  ultimately show ?case
    unfolding c by (subst (1 2) damerauLevenshteinDistanceMax_cols.simps) simp
next
  case (Suc x)
  then have le: "int j \<le> jEnd" by linarith
  then have jl: "j \<le> length b" using assms(5) by linarith
  have x: "x = nat (jEnd + 1 - int (j + 1))" using Suc(2) by linarith
  obtain cur rowMin where c: "c = (cur, rowMin)" by (cases c)
  show ?case
    unfolding c
    using le Suc(1) [OF x] dlCell_map [OF assms(1,2,3) Suc(3) jl]
    by (subst (1 2) damerauLevenshteinDistanceMax_cols.simps) (simp add: Let_def)
qed

lemma damerauLevenshteinDistanceMax_rows_map:
  assumes "inj f" "1 \<le> i"
  shows "damerauLevenshteinDistanceMax_rows (map f a) (map f b) k limit i prev2 prev cur
         = damerauLevenshteinDistanceMax_rows a b k limit i prev2 prev cur"
  using assms(2)
proof (induction "length a + 1 - i" arbitrary: i prev2 prev cur)
  case 0
  then have "\<not> i \<le> length a" by linarith
  then show ?case by (subst (1 2) damerauLevenshteinDistanceMax_rows.simps) simp
next
  case (Suc x)
  then have le: "i \<le> length a" by linarith
  have x: "x = length a + 1 - (i + 1)" using Suc(2) by linarith
  define jStart where "jStart = (if int i > k then nat (int i - k) else 1)"
  define jEnd where "jEnd = (if int (length b) > add64 (int i) k then add64 (int i) k else int (length b))"
  have "1 \<le> jStart" "jEnd \<le> int (length b)"
    by (auto simp: jStart_def jEnd_def)
  note cols = damerauLevenshteinDistanceMax_cols_map [OF assms(1) Suc(3) le this, unfolded jStart_def jEnd_def]
  show ?case
    using le Suc(1) [OF x]
    by (subst (1 2) damerauLevenshteinDistanceMax_rows.simps)
       (simp add: Let_def cols split: prod.splits)
qed

lemma damerauLevenshteinDistanceMax_map:
  assumes "inj f"
  shows "damerauLevenshteinDistanceMax pool (map f a) (map f b) k
         = damerauLevenshteinDistanceMax pool a b k"
  unfolding damerauLevenshteinDistanceMax_def
  by (simp add: damerauLevenshteinDistanceMax_rows_map [OF assms] Let_def)

lemma isASCII_iff: "isASCII s \<longleftrightarrow> (\<forall>c \<in> set s. (of_char c :: nat) < 0x80)"
  by (induction s) auto

lemma runes_of_string_ascii: "isASCII s \<Longrightarrow> runes_of_string s = map of_char s"
  unfolding runes_of_string_def by (rule decode_ascii) (simp add: isASCII_iff)

lemma inj_of_char_nat: "inj (of_char :: char \<Rightarrow> nat)"
  by (rule injI) simp

text \<open>
  Claim C7. For all strings \<open>a\<close> and \<open>b\<close> of 7-bit ASCII characters the byte kernel
  and the rune kernel return the same number:
  \<open>damerauLevenshteinDistance(a, b) = damerauLevenshteinDistanceRunes([]rune(a), []rune(b))\<close>,
  and likewise the bounded kernels at every \<open>k\<close> (whatever the recycled rows hold,
  and also where the bounded kernel overflows or panics: then both do).
\<close>

theorem kernels_agree_on_ascii:
  assumes "isASCII a" "isASCII b"
  shows "damerauLevenshteinDistance pool a b
           = damerauLevenshteinDistanceRunes pool (runes_of_string a) (runes_of_string b)
         \<and> damerauLevenshteinDistanceMax pool a b k
           = damerauLevenshteinDistanceMaxRunes pool (runes_of_string a) (runes_of_string b) k"
  unfolding damerauLevenshteinDistanceRunes_def damerauLevenshteinDistanceMaxRunes_def
    runes_of_string_ascii [OF assms(1)] runes_of_string_ascii [OF assms(2)]
  by (simp add: damerauLevenshteinDistance_map [OF inj_of_char_nat]
      damerauLevenshteinDistanceMax_map [OF inj_of_char_nat])

theorem kernels_agree_on_ascii_witness:
  "isASCII ''ab'' \<and> isASCII ''ba'' \<and>
   damerauLevenshteinDistance ([], [], []) ''ab'' ''ba'' = 1 \<and>
   damerauLevenshteinDistanceRunes ([], [], []) (runes_of_string ''ab'') (runes_of_string ''ba'') = 1 \<and>
   damerauLevenshteinDistanceMaxRunes ([], [], []) (runes_of_string ''ab'') (runes_of_string ''ba'') 0
     = Inr 1"
proof -
  have a: "isASCII ''ab''" "isASCII ''ba''" by simp_all
  have d: "damerauLevenshteinDistance ([], [], []) ''ab'' ''ba'' = 1" by code_simp
  have m: "damerauLevenshteinDistanceMax ([], [], []) ''ab'' ''ba'' 0 = Inr 1" by code_simp
  from kernels_agree_on_ascii [OF a, of "([], [], [])" 0] d m a show ?thesis by simp
qed
subsection \<open>The bounded distance against the exact distance\<close>


lemma Type_NewEditDistance [simp]: "Type (NewEditDistance T) = T"
  by (simp add: NewEditDistance_def)




text \<open>At \<open>k = 2^63 - 1\<close> the sentinel write \<open>curr[jEnd+1]\<close> has a negative index.\<close>

lemma DistanceMax_overflow_panic:
  "EditDistance_DistanceMax ([], [], []) (NewEditDistance DamerauLevenshtein) ''a'' ''a'' (2 ^ 63 - 1)
     = Inl IndexOutOfRange"
  by code_simp

subsection \<open>The top-result cache\<close>

text \<open>
  \<open>Get\<close> and \<open>Add\<close> move the entry of the key to the front of the list; \<open>Add\<close> drops
  the entry at the back when the list has grown beyond the capacity. A miss of \<open>Get\<close>
  (the zero item and \<open>false\<close>) is \<open>None\<close>.
\<close>

definition topCache_Get :: "topCache \<Rightarrow> string \<Rightarrow> SuggestItem option \<times> topCache" where
  "topCache_Get c key =
     (case map_of (ll c) key of
        Some v \<Rightarrow> (Some v, c\<lparr>ll := (key, v) # remove1 (key, v) (ll c)\<rparr>)
      | None \<Rightarrow> (None, c))"

definition topCache_Add :: "topCache \<Rightarrow> string \<Rightarrow> SuggestItem \<Rightarrow> topCache" where
  "topCache_Add c key v =
     (case map_of (ll c) key of
        Some old \<Rightarrow> c\<lparr>ll := (key, v) # remove1 (key, old) (ll c)\<rparr>
      | None \<Rightarrow>
          (let l = (key, v) # ll c
           in if int (length l) > capacity c then c\<lparr>ll := butlast l\<rparr> else c\<lparr>ll := l\<rparr>))"

subsection \<open>The candidate processor\<close>

text \<open>
  \<open>acquireCandidateProcessor\<close> takes a processor from a pool and sets every field of
  it, so the pool is not observable and the model builds the record. The two sets
  \<open>consideredDeletes\<close> and \<open>consideredSuggestions\<close> are only tested for membership
  and extended. The parameters \<open>phrase\<close> and \<open>verbosity\<close> of the source are written
  \<open>phraseArg\<close> and \<open>verbosityArg\<close>, the names being those of the record's fields.
\<close>

record candidateProcessor =
  candidates :: "string list"
  consideredDeletes :: "string set"
  consideredSuggestions :: "string set"
  maxEditDistance2 :: int
  candidatePointer :: nat
  verbosity :: Verbosity
  phraseLen :: int
  phrase :: string
  phraseRunes :: "rune list"
  unicode :: bool
  candidateLen :: int
  candidateRunes :: "rune list"
  distance :: int
  minDistance :: int
  suggestions :: "SuggestItem list"
  suggestionLen :: int
  suggestionRunes :: "rune list"
  lenDiff :: int

record ExactMatchResult =
  shouldStop :: bool
  exactItem :: "SuggestItem option"

datatype lookup_error = Error string | Panic panic

definition acquireCandidateProcessor :: "int \<Rightarrow> Verbosity \<Rightarrow> string \<Rightarrow> candidateProcessor" where
  "acquireCandidateProcessor maxEditDistance verbosityArg phraseArg =
     \<lparr> candidates = [],
       consideredDeletes = {},
       consideredSuggestions = {},
       maxEditDistance2 = maxEditDistance,
       candidatePointer = 0,
       verbosity = verbosityArg,
       phraseLen = (if \<not> isASCII phraseArg then int (length (runes_of_string phraseArg))
                    else int (length phraseArg)),
       phrase = phraseArg,
       phraseRunes = (if \<not> isASCII phraseArg then runes_of_string phraseArg else []),
       unicode = (\<not> isASCII phraseArg),
       candidateLen = 0,
       candidateRunes = [],
       distance = 0,
       minDistance = 0,
       suggestions = [],
       suggestionLen = 0,
       suggestionRunes = [],
       lenDiff = 0 \<rparr>"

definition resetDistance :: "candidateProcessor \<Rightarrow> candidateProcessor" where
  "resetDistance c = c\<lparr>distance := 0, minDistance := 0\<rparr>"

definition updateSuggestion :: "candidateProcessor \<Rightarrow> string \<Rightarrow> candidateProcessor" where
  "updateSuggestion c suggestion =
     (if unicode c then
        (let c = c\<lparr>suggestionRunes := runes_of_string suggestion\<rparr>
         in c\<lparr>suggestionLen := int (length (suggestionRunes c))\<rparr>)
      else c\<lparr>suggestionLen := int (length suggestion)\<rparr>)"

text \<open>
  \<open>sort.Slice\<close> belongs to Go's library. It sorts by the given comparison and is not
  stable: the order of items that compare equal is not specified. The model is an
  insertion sort by that comparison, which fixes one such order.
\<close>

fun sort_insert :: "('a \<Rightarrow> 'a \<Rightarrow> bool) \<Rightarrow> 'a \<Rightarrow> 'a list \<Rightarrow> 'a list" where
  "sort_insert lt x [] = [x]"
| "sort_insert lt x (y # ys) = (if lt x y then x # y # ys else y # sort_insert lt x ys)"

fun sort_Slice :: "('a \<Rightarrow> 'a \<Rightarrow> bool) \<Rightarrow> 'a list \<Rightarrow> 'a list" where
  "sort_Slice lt [] = []"
| "sort_Slice lt (x # xs) = sort_insert lt x (sort_Slice lt xs)"

definition suggestionLess :: "SuggestItem \<Rightarrow> SuggestItem \<Rightarrow> bool" where
  "suggestionLess x y =
     (if Distance x = Distance y then Count x > Count y else Distance x < Distance y)"

definition sortCandidate :: "candidateProcessor \<Rightarrow> candidateProcessor" where
  "sortCandidate c =
     (if length (suggestions c) > 1 then c\<lparr>suggestions := sort_Slice suggestionLess (suggestions c)\<rparr>
      else c)"

subsection \<open>Lookup\<close>

definition getOriginPrefix :: "SymSpell \<Rightarrow> candidateProcessor \<Rightarrow> panic + string" where
  "getOriginPrefix s cp =
     (if phraseLen cp > PrefixLength s then
        (if PrefixLength s < 0 then Inl IndexOutOfRange
         else if unicode cp then Inr (string_of_runes (take (nat (PrefixLength s)) (phraseRunes cp)))
         else Inr (take (nat (PrefixLength s)) (phrase cp)))
      else Inr (phrase cp))"

definition checkExactMatch ::
  "SymSpell \<Rightarrow> string \<Rightarrow> Verbosity \<Rightarrow> candidateProcessor \<Rightarrow> panic + ExactMatchResult \<times> candidateProcessor" where
  "checkExactMatch s phraseArg verbosityArg cp =
     (case Words s phraseArg of
        Some idx \<Rightarrow>
          (if unat idx < length (counts s) then
             (let count = counts s ! unat idx;
                  item = \<lparr> Term = phraseArg, Distance = 0, Count = int (unat count) \<rparr>;
                  cp = cp\<lparr>suggestions := suggestions cp @ [item]\<rparr>
              in if verbosityArg \<noteq> All' \<and> int (unat count) \<ge> FrequencyThreshold s
                 then Inr (\<lparr> shouldStop = True, exactItem = Some item \<rparr>, cp)
                 else Inr (\<lparr> shouldStop = False, exactItem = Some item \<rparr>, cp))
           else Inl IndexOutOfRange)
      | None \<Rightarrow> Inr (\<lparr> shouldStop = False, exactItem = None \<rparr>, cp))"

fun bestAlternative :: "SymSpell \<Rightarrow> SuggestItem \<Rightarrow> SuggestItem list \<Rightarrow> SuggestItem option \<Rightarrow> SuggestItem option" where
  "bestAlternative s exactMatch [] best = best"
| "bestAlternative s exactMatch (suggestion # rest) best =
     (if Distance suggestion = 0 then bestAlternative s exactMatch rest best
      else if Distance suggestion \<le> 2 then
        (let requiredFrequency = mul64 (Count exactMatch) (FrequencyMultiplier s)
         in if Count suggestion \<ge> requiredFrequency then
              (if (case best of
                     None \<Rightarrow> True
                   | Some b \<Rightarrow> Count suggestion > Count b \<or>
                               (Count suggestion = Count b \<and> Distance suggestion < Distance b))
               then bestAlternative s exactMatch rest (Some suggestion)
               else bestAlternative s exactMatch rest best)
            else bestAlternative s exactMatch rest best)
      else bestAlternative s exactMatch rest best)"

definition finalizeWithFrequencyCheck ::
  "SymSpell \<Rightarrow> candidateProcessor \<Rightarrow> SuggestItem option \<Rightarrow> candidateProcessor" where
  "finalizeWithFrequencyCheck s cp exactMatch =
     (case exactMatch of
        None \<Rightarrow> cp
      | Some e \<Rightarrow>
          if length (suggestions cp) \<le> 1 then cp
          else (case bestAlternative s e (suggestions cp) None of
                  None \<Rightarrow> cp
                | Some b \<Rightarrow> cp\<lparr>suggestions := filter (\<lambda>x. Distance x \<noteq> 0) (suggestions cp)\<rparr>))"

definition preProcessCandidate :: "candidateProcessor \<Rightarrow> string \<times> candidateProcessor" where
  "preProcessCandidate cp =
     (let candidate = candidates cp ! candidatePointer cp;
          cp = cp\<lparr>candidatePointer := candidatePointer cp + 1\<rparr>;
          cp = (if unicode cp then
                  (let cp = cp\<lparr>candidateRunes := runes_of_string candidate\<rparr>
                   in cp\<lparr>candidateLen := int (length (candidateRunes cp))\<rparr>)
                else cp\<lparr>candidateLen := int (length candidate)\<rparr>);
          cp = cp\<lparr>lenDiff := phraseLen cp - candidateLen cp\<rparr>
      in (candidate, cp))"

definition abs_int :: "int \<Rightarrow> int" where
  "abs_int a = (if a < 0 then - a else a)"

definition checkSuggestionToSkip :: "SymSpell \<Rightarrow> candidateProcessor \<Rightarrow> string \<Rightarrow> string \<Rightarrow> bool" where
  "checkSuggestionToSkip s cp suggestion candidate =
     (if abs_int (suggestionLen cp - phraseLen cp) > maxEditDistance2 cp \<or>
         suggestionLen cp < candidateLen cp \<or>
         (suggestionLen cp = candidateLen cp \<and> suggestion \<noteq> candidate)
      then True
      else (let suggestionPrefixLen = min (suggestionLen cp) (PrefixLength s)
            in if suggestionPrefixLen > phraseLen cp \<and>
                  sub64 suggestionPrefixLen (candidateLen cp) > maxEditDistance2 cp
               then True else False))"

definition updateMinDistance :: "SymSpell \<Rightarrow> int \<Rightarrow> candidateProcessor \<Rightarrow> candidateProcessor" where
  "updateMinDistance s maxEditDistance cp =
     (if sub64 (PrefixLength s) maxEditDistance = candidateLen cp
      then cp\<lparr>minDistance := sub64 (min (phraseLen cp) (suggestionLen cp)) (PrefixLength s)\<rparr>
      else cp\<lparr>minDistance := 0\<rparr>)"

text \<open>Indexing \<open>xs[i]\<close> and slicing \<open>xs[lo:]\<close>, with Go's range checks.\<close>

definition index_at :: "'a list \<Rightarrow> int \<Rightarrow> panic + 'a" where
  "index_at xs i = (if 0 \<le> i \<and> i < int (length xs) then Inr (xs ! nat i) else Inl IndexOutOfRange)"

definition slice_from :: "'a list \<Rightarrow> int \<Rightarrow> panic + 'a list" where
  "slice_from xs lo = (if 0 \<le> lo \<and> lo \<le> int (length xs) then Inr (drop (nat lo) xs) else Inl IndexOutOfRange)"

definition runesEqual :: "'a list \<Rightarrow> 'a list \<Rightarrow> bool" where
  "runesEqual a b = (if length a \<noteq> length b then False else list_all2 (=) a b)"

text \<open>
  \<open>checkProcessShouldSkip\<close> has the same text twice, on the runes and on the bytes
  of the phrase and the suggestion; \<open>shouldSkipOn\<close> is that text.
\<close>

definition shouldSkipOn :: "'a list \<Rightarrow> 'a list \<Rightarrow> int \<Rightarrow> int \<Rightarrow> int \<Rightarrow> panic + bool" where
  "shouldSkipOn pr sr pLen sLen minD =
     (case (if minD > 1 then
              (case slice_from pr (pLen + 1 - minD) of
                 Inl e \<Rightarrow> Inl e
               | Inr ps \<Rightarrow>
                   (case slice_from sr (sLen + 1 - minD) of
                      Inl e \<Rightarrow> Inl e
                    | Inr ss \<Rightarrow> Inr (\<not> runesEqual ps ss)))
            else Inr False) of
        Inl e \<Rightarrow> Inl e
      | Inr True \<Rightarrow> Inr True
      | Inr False \<Rightarrow>
          (if minD > 0 then
             (case index_at pr (pLen - minD) of
                Inl e \<Rightarrow> Inl e
              | Inr p0 \<Rightarrow>
                  (case index_at sr (sLen - minD) of
                     Inl e \<Rightarrow> Inl e
                   | Inr s0 \<Rightarrow>
                       if p0 \<noteq> s0 then
                         (case index_at pr (pLen - minD - 1) of
                            Inl e \<Rightarrow> Inl e
                          | Inr p1 \<Rightarrow>
                              if p1 \<noteq> s0 then Inr True
                              else (case index_at sr (sLen - minD - 1) of
                                      Inl e \<Rightarrow> Inl e
                                    | Inr s1 \<Rightarrow> if p0 \<noteq> s1 then Inr True else Inr False))
                       else Inr False))
           else Inr False))"

definition checkProcessShouldSkip :: "candidateProcessor \<Rightarrow> string \<Rightarrow> panic + bool" where
  "checkProcessShouldSkip cp suggestion =
     (if unicode cp then
        shouldSkipOn (phraseRunes cp) (suggestionRunes cp) (phraseLen cp) (suggestionLen cp) (minDistance cp)
      else shouldSkipOn (phrase cp) suggestion (phraseLen cp) (suggestionLen cp) (minDistance cp))"

text \<open>
  \<open>DistanceMax\<close> takes its three rows from a pool; here they are fresh. Inside the bound
  of \<open>damerauLevenshteinDistanceMax_table\<close> the result does not depend on them.
\<close>

definition distanceCompare :: "SymSpell \<Rightarrow> string \<Rightarrow> string \<Rightarrow> int \<Rightarrow> panic + int" where
  "distanceCompare s a b maxDistance =
     (case EditDistance_DistanceMax ([], [], []) (distanceComparer s) a b maxDistance of
        Inl e \<Rightarrow> Inl e
      | Inr d \<Rightarrow> if d > maxDistance then Inr (- 1) else Inr d)"

definition checkDistanceToSkip ::
  "SymSpell \<Rightarrow> int \<Rightarrow> candidateProcessor \<Rightarrow> string \<Rightarrow> panic + bool \<times> candidateProcessor" where
  "checkDistanceToSkip s maxEditDistance cp suggestion =
     (case (if sub64 (PrefixLength s) maxEditDistance = candidateLen cp
            then checkProcessShouldSkip cp suggestion else Inr False) of
        Inl e \<Rightarrow> Inl e
      | Inr True \<Rightarrow> Inr (True, cp)
      | Inr False \<Rightarrow>
          if suggestion \<in> consideredSuggestions cp then Inr (True, cp)
          else (let cp = cp\<lparr>consideredSuggestions := insert suggestion (consideredSuggestions cp)\<rparr>
                in case distanceCompare s (phrase cp) suggestion (maxEditDistance2 cp) of
                     Inl e \<Rightarrow> Inl e
                   | Inr d \<Rightarrow> (let cp = cp\<lparr>distance := d\<rparr> in Inr (distance cp < 0, cp))))"

definition checkFirstRuneDistance :: "candidateProcessor \<Rightarrow> string \<Rightarrow> panic + bool \<times> candidateProcessor" where
  "checkFirstRuneDistance cp suggestion =
     (case (if unicode cp then
              (case index_at (suggestionRunes cp) 0 of
                 Inl e \<Rightarrow> Inl e
               | Inr first \<Rightarrow> Inr (first \<in> set (phraseRunes cp)))
            else
              (case index_at suggestion 0 of
                 Inl e \<Rightarrow> Inl e
               | Inr first \<Rightarrow> Inr (first \<in> set (phrase cp)))) of
        Inl e \<Rightarrow> Inl e
      | Inr found \<Rightarrow>
          (let cp = (if found then cp\<lparr>distance := phraseLen cp - 1\<rparr>
                     else cp\<lparr>distance := phraseLen cp\<rparr>)
           in if distance cp > maxEditDistance2 cp then Inr (True, cp)
              else if suggestion \<in> consideredSuggestions cp then Inr (True, cp)
              else Inr (False, cp)))"

definition updateBestSuggestion ::
  "candidateProcessor \<Rightarrow> int \<Rightarrow> SuggestItem \<Rightarrow> bool \<times> candidateProcessor" where
  "updateBestSuggestion cp suggestionCount item =
     (if verbosity cp = Closest then
        (if distance cp < maxEditDistance2 cp then (False, cp\<lparr>suggestions := []\<rparr>) else (False, cp))
      else if verbosity cp = Top then
        (if distance cp < maxEditDistance2 cp \<or> suggestionCount > Count (suggestions cp ! 0)
         then (True, cp\<lparr>maxEditDistance2 := distance cp, suggestions := (suggestions cp)[0 := item]\<rparr>)
         else (True, cp))
      else (False, cp))"

definition updateSuggestions ::
  "SymSpell \<Rightarrow> uint32 \<Rightarrow> string \<Rightarrow> candidateProcessor \<Rightarrow> panic + candidateProcessor" where
  "updateSuggestions s idx suggestion cp =
     (if \<not> unat idx < length (counts s) then Inl IndexOutOfRange
      else
        (let suggestionCount = counts s ! unat idx;
             item = \<lparr> Term = suggestion, Distance = distance cp, Count = int (unat suggestionCount) \<rparr>;
             (shouldContinue, cp) =
                (if length (suggestions cp) > 0
                 then updateBestSuggestion cp (int (unat suggestionCount)) item
                 else (False, cp))
         in if shouldContinue then Inr cp
            else
              (let cp = (if verbosity cp \<noteq> All' then cp\<lparr>maxEditDistance2 := distance cp\<rparr> else cp)
               in Inr (cp\<lparr>suggestions := suggestions cp @
                          [\<lparr> Term = suggestion, Distance = distance cp,
                             Count = int (unat suggestionCount) \<rparr>]\<rparr>))))"

function addEditDistance_bytes :: "string \<Rightarrow> nat \<Rightarrow> candidateProcessor \<Rightarrow> candidateProcessor" where
  "addEditDistance_bytes candidate i cp =
     (if i < length candidate then
        (let deleteItem = take i candidate @ drop (i + 1) candidate;
             cp = (if deleteItem \<notin> consideredDeletes cp
                   then cp\<lparr>consideredDeletes := insert deleteItem (consideredDeletes cp),
                           candidates := candidates cp @ [deleteItem]\<rparr>
                   else cp)
         in addEditDistance_bytes candidate (i + 1) cp)
      else cp)"
  by pat_completeness auto
termination
  by (relation "measure (\<lambda>(candidate, i, cp). length candidate - i)") auto

function addEditDistance_runes :: "rune list \<Rightarrow> nat \<Rightarrow> candidateProcessor \<Rightarrow> candidateProcessor" where
  "addEditDistance_runes runes i cp =
     (if i < length runes then
        (let deleteItem = string_of_runes (take i runes) @ string_of_runes (drop (i + 1) runes);
             cp = (if deleteItem \<notin> consideredDeletes cp
                   then cp\<lparr>consideredDeletes := insert deleteItem (consideredDeletes cp),
                           candidates := candidates cp @ [deleteItem]\<rparr>
                   else cp)
         in addEditDistance_runes runes (i + 1) cp)
      else cp)"
  by pat_completeness auto
termination
  by (relation "measure (\<lambda>(runes, i, cp). length runes - i)") auto

definition addEditDistance :: "string \<Rightarrow> candidateProcessor \<Rightarrow> candidateProcessor" where
  "addEditDistance candidate cp =
     (if \<not> unicode cp then addEditDistance_bytes candidate 0 cp
      else addEditDistance_runes (candidateRunes cp) 0 cp)"
text \<open>
  The body of the loop over the posting list of a candidate, at the index \<open>i\<close> of
  \<open>DeletesData\<close>; a \<open>continue\<close> returns the processor as it is at that point.
\<close>

definition processSuggestion ::
  "SymSpell \<Rightarrow> int \<Rightarrow> string \<Rightarrow> nat \<Rightarrow> candidateProcessor \<Rightarrow> panic + candidateProcessor" where
  "processSuggestion s maxEditDistance candidate i cp =
     (if \<not> i < length (DeletesData s) then Inl IndexOutOfRange
      else
        (let idx = DeletesData s ! i
         in if \<not> unat idx < length (words s) then Inl IndexOutOfRange
            else
              (let suggestion = words s ! unat idx
               in if suggestion = phrase cp then Inr cp
                  else
                    (let cp = updateSuggestion cp suggestion
                     in if checkSuggestionToSkip s cp suggestion candidate then Inr cp
                        else
                          (let cp = resetDistance cp
                           in case (if candidateLen cp = 0 then
                                      (let cp = cp\<lparr>distance := max (phraseLen cp) (suggestionLen cp)\<rparr>
                                       in if distance cp > maxEditDistance2 cp then Inr (True, cp)
                                          else if suggestion \<in> consideredSuggestions cp then Inr (True, cp)
                                          else Inr (False, cp))
                                    else if suggestionLen cp = 1 then checkFirstRuneDistance cp suggestion
                                    else checkDistanceToSkip s maxEditDistance
                                           (updateMinDistance s maxEditDistance cp) suggestion) of
                                Inl e \<Rightarrow> Inl e
                              | Inr (skip, cp) \<Rightarrow>
                                  if skip then Inr cp
                                  else if distance cp \<le> maxEditDistance2 cp
                                  then updateSuggestions s idx suggestion cp
                                  else Inr cp)))))"

fun processSuggestions ::
  "SymSpell \<Rightarrow> int \<Rightarrow> string \<Rightarrow> nat list \<Rightarrow> candidateProcessor \<Rightarrow> panic + candidateProcessor" where
  "processSuggestions s maxEditDistance candidate [] cp = Inr cp"
| "processSuggestions s maxEditDistance candidate (i # rest) cp =
     (case processSuggestion s maxEditDistance candidate i cp of
        Inl e \<Rightarrow> Inl e
      | Inr cp \<Rightarrow> processSuggestions s maxEditDistance candidate rest cp)"

text \<open>
  One turn of the loop of \<open>processCandidate\<close>. The boolean says whether the loop goes
  on (\<open>continue\<close>, or the end of the body) or is left (\<open>break\<close>). The counter \<open>i\<close> of the
  posting loop is a \<open>uint32\<close>, and so is its bound \<open>offset + length\<close>.
\<close>

definition processCandidate_step ::
  "SymSpell \<Rightarrow> int \<Rightarrow> candidateProcessor \<Rightarrow> panic + bool \<times> candidateProcessor" where
  "processCandidate_step s maxEditDistance cp0 =
     (let (candidate, cp) = preProcessCandidate cp0
      in if lenDiff cp > maxEditDistance2 cp then
           (if verbosity cp = All' then Inr (True, cp) else Inr (False, cp))
         else
           (case (case DeletesIdx s candidate of
                    Some v \<Rightarrow>
                      (let offset = (ucast (drop_bit 32 v) :: uint32);
                           len = (ucast v :: uint32)
                       in processSuggestions s maxEditDistance candidate
                            [unat offset ..< unat (offset + len)] cp)
                  | None \<Rightarrow> Inr cp) of
              Inl e \<Rightarrow> Inl e
            | Inr cp \<Rightarrow>
                if lenDiff cp \<le> maxEditDistance \<and> candidateLen cp \<le> PrefixLength s then
                  (if verbosity cp \<noteq> All' \<and> lenDiff cp \<ge> maxEditDistance2 cp then Inr (True, cp)
                   else Inr (True, addEditDistance candidate cp))
                else Inr (True, cp)))"
subsection \<open>The search loop terminates\<close>

text \<open>
  The loop of \<open>processCandidate\<close> reads the queue \<open>candidates\<close> at \<open>candidatePointer\<close>
  and may append to it the deletions of the candidate it read that are not yet in
  \<open>consideredDeletes\<close>. Every string that can ever enter the queue is a subsequence
  of a string already in it (of its runes when the phrase is not ASCII), so the
  strings not yet considered run out.
\<close>

definition searchQueue ::
  "candidateProcessor \<Rightarrow> string list \<times> string set \<times> nat \<times> bool \<times> rune list" where
  "searchQueue cp =
     (candidates cp, consideredDeletes cp, candidatePointer cp, unicode cp, candidateRunes cp)"

definition deletionUniverse :: "candidateProcessor \<Rightarrow> string set" where
  "deletionUniverse cp =
     (if unicode cp
      then (\<Union>c \<in> set (candidates cp). string_of_runes ` set (subseqs (runes_of_string c)))
      else (\<Union>c \<in> set (candidates cp). set (subseqs c)))"

definition searchMeasure :: "candidateProcessor \<Rightarrow> nat" where
  "searchMeasure cp =
     2 * card (deletionUniverse cp - consideredDeletes cp) +
     (length (candidates cp) - candidatePointer cp)"

lemma finite_deletionUniverse: "finite (deletionUniverse cp)"
  by (simp add: deletionUniverse_def)

lemma searchQueue_updateSuggestion: "searchQueue (updateSuggestion cp x) = searchQueue cp"
  by (simp add: searchQueue_def updateSuggestion_def Let_def)

lemma searchQueue_resetDistance: "searchQueue (resetDistance cp) = searchQueue cp"
  by (simp add: searchQueue_def resetDistance_def)

lemma searchQueue_updateMinDistance: "searchQueue (updateMinDistance s k cp) = searchQueue cp"
  by (simp add: searchQueue_def updateMinDistance_def)

lemma searchQueue_checkFirstRuneDistance:
  "checkFirstRuneDistance cp x = Inr (b, cp') \<Longrightarrow> searchQueue cp' = searchQueue cp"
  by (auto simp: searchQueue_def checkFirstRuneDistance_def Let_def split: sum.splits if_splits)

lemma searchQueue_checkDistanceToSkip:
  "checkDistanceToSkip s k cp x = Inr (b, cp') \<Longrightarrow> searchQueue cp' = searchQueue cp"
  by (auto simp: searchQueue_def checkDistanceToSkip_def Let_def split: sum.splits if_splits bool.splits)

lemma searchQueue_updateBestSuggestion:
  "updateBestSuggestion cp n item = (b, cp') \<Longrightarrow> searchQueue cp' = searchQueue cp"
  by (auto simp: searchQueue_def updateBestSuggestion_def split: if_splits)

lemma searchQueue_updateSuggestions:
  "updateSuggestions s idx x cp = Inr cp' \<Longrightarrow> searchQueue cp' = searchQueue cp"
  by (auto simp: updateSuggestions_def Let_def searchQueue_def
           split: if_splits prod.splits dest!: searchQueue_updateBestSuggestion)

lemma searchQueue_processSuggestion:
  assumes "processSuggestion s k c i cp = Inr cp'"
  shows "searchQueue cp' = searchQueue cp"
proof -
  let ?x = "words s ! unat (DeletesData s ! i)"
  let ?c1 = "updateSuggestion cp ?x"
  let ?c2 = "resetDistance ?c1"
  have q2: "searchQueue ?c2 = searchQueue cp"
    by (simp add: searchQueue_resetDistance searchQueue_updateSuggestion)
  have q1: "searchQueue ?c1 = searchQueue cp"
    by (simp add: searchQueue_updateSuggestion)
  have q3: "searchQueue (?c2\<lparr>distance := d\<rparr>) = searchQueue cp" for d
    using q2 by (simp add: searchQueue_def)
  show ?thesis
    using assms q1 q2 q3
    by (auto simp: processSuggestion_def Let_def searchQueue_updateMinDistance
             split: if_splits sum.splits prod.splits
             dest!: searchQueue_checkFirstRuneDistance searchQueue_checkDistanceToSkip
                    searchQueue_updateSuggestions)
qed

lemma searchQueue_processSuggestions:
  "processSuggestions s k c is cp = Inr cp' \<Longrightarrow> searchQueue cp' = searchQueue cp"
proof (induction "is" arbitrary: cp)
  case Nil
  then show ?case by simp
next
  case (Cons i rest)
  then show ?case
    by (auto split: sum.splits dest!: searchQueue_processSuggestion)
qed
lemma subseq_delete_at: "subseq (take i c @ drop (Suc i) c) c"
proof -
  have "subseq (drop (Suc i) c) (drop i c)"
  proof (cases "i < length c")
    case True
    then have "drop i c = c ! i # drop (Suc i) c" by (simp add: Cons_nth_drop_Suc)
    then show ?thesis by (simp add: list_emb_Cons)
  next
    case False
    then show ?thesis by simp
  qed
  then have "subseq (take i c @ drop (Suc i) c) (take i c @ drop i c)"
    by (rule list_emb_append_mono [OF subseq_order.order_refl])
  then show ?thesis by simp
qed

lemma subseqs_mono: "subseq d c \<Longrightarrow> set (subseqs d) \<subseteq> set (subseqs c)"
  unfolding set_subseqs_eq using subseq_order.order_trans by blast

lemma card_diff_insert_less:
  assumes "finite U" "d \<in> U" "d \<notin> D"
  shows "Suc (card (U - insert d D)) = card (U - D)"
proof -
  have "U - insert d D = (U - D) - {d}" by auto
  moreover have "d \<in> U - D" using assms by simp
  moreover have "finite (U - D)" using assms by simp
  ultimately show ?thesis by (metis card_Suc_Diff1)
qed

declare addEditDistance_bytes.simps [simp del] addEditDistance_runes.simps [simp del]

lemma addEditDistance_bytes_measure:
  assumes "\<not> unicode cp" "c \<in> set (candidates cp)"
  shows "searchMeasure (addEditDistance_bytes c i cp) \<le> searchMeasure cp"
  using assms
proof (induction c i cp rule: addEditDistance_bytes.induct)
  case (1 candidate i cp)
  show ?case
  proof (cases "i < length candidate")
    case False
    then show ?thesis by (subst addEditDistance_bytes.simps) simp
  next
    case True
    define d where "d = take i candidate @ drop (i + 1) candidate"
    define cp1 where "cp1 = (if d \<notin> consideredDeletes cp
                   then cp\<lparr>consideredDeletes := insert d (consideredDeletes cp),
                           candidates := candidates cp @ [d]\<rparr>
                   else cp)"
    have step: "addEditDistance_bytes candidate i cp = addEditDistance_bytes candidate (i + 1) cp1"
      by (subst addEditDistance_bytes.simps) (simp add: True d_def cp1_def Let_def)
    have u1: "\<not> unicode cp1" and c1: "candidate \<in> set (candidates cp1)"
      using "1.prems" by (auto simp: cp1_def)
    have sub: "subseq d candidate" unfolding d_def using subseq_delete_at [of i candidate] by simp
    have "d \<in> set (subseqs candidate)" using sub by (simp add: set_subseqs_eq)
    then have dU: "d \<in> deletionUniverse cp"
      using "1.prems" unfolding deletionUniverse_def by auto
    have "set (subseqs d) \<subseteq> set (subseqs candidate)"
      by (rule subseqs_mono [OF sub])
    then have U1: "deletionUniverse cp1 = deletionUniverse cp"
      using "1.prems" by (auto simp: deletionUniverse_def cp1_def)
    have m1: "searchMeasure cp1 \<le> searchMeasure cp"
    proof (cases "d \<in> consideredDeletes cp")
      case True
      then show ?thesis by (simp add: cp1_def)
    next
      case False
      have "Suc (card (deletionUniverse cp - insert d (consideredDeletes cp))) =
            card (deletionUniverse cp - consideredDeletes cp)"
        by (rule card_diff_insert_less [OF finite_deletionUniverse dU False])
      moreover have "consideredDeletes cp1 = insert d (consideredDeletes cp)"
        "candidates cp1 = candidates cp @ [d]" "candidatePointer cp1 = candidatePointer cp"
        using False by (simp_all add: cp1_def)
      ultimately show ?thesis
        unfolding searchMeasure_def U1 by simp
    qed
    have "searchMeasure (addEditDistance_bytes candidate (i + 1) cp1) \<le> searchMeasure cp1"
      using "1.IH" [OF True d_def refl, folded cp1_def, OF u1 c1] .
    then show ?thesis using m1 step by simp
  qed
qed

lemma addEditDistance_runes_measure:
  assumes "unicode cp" "c \<in> set (candidates cp)" "r = runes_of_string c"
  shows "searchMeasure (addEditDistance_runes r i cp) \<le> searchMeasure cp"
  using assms
proof (induction r i cp rule: addEditDistance_runes.induct)
  case (1 runes i cp)
  show ?case
  proof (cases "i < length runes")
    case False
    then show ?thesis by (subst addEditDistance_runes.simps) simp
  next
    case True
    define r' where "r' = take i runes @ drop (Suc i) runes"
    define d where "d = string_of_runes (take i runes) @ string_of_runes (drop (i + 1) runes)"
    define cp1 where "cp1 = (if d \<notin> consideredDeletes cp
                   then cp\<lparr>consideredDeletes := insert d (consideredDeletes cp),
                           candidates := candidates cp @ [d]\<rparr>
                   else cp)"
    have step: "addEditDistance_runes runes i cp = addEditDistance_runes runes (i + 1) cp1"
      by (subst addEditDistance_runes.simps) (simp add: True d_def cp1_def Let_def)
    have u1: "unicode cp1" and c1: "c \<in> set (candidates cp1)"
      using "1.prems" by (auto simp: cp1_def)
    have dr: "d = string_of_runes r'"
      by (simp add: d_def r'_def string_of_runes_append)
    have sub: "subseq r' runes" unfolding r'_def by (rule subseq_delete_at)
    have valid: "\<forall>x \<in> set r'. valid_rune x"
    proof
      fix x assume "x \<in> set r'"
      then have "x \<in> set runes"
        by (auto simp: r'_def dest: in_set_takeD in_set_dropD)
      then show "valid_rune x" using "1.prems"(3) runes_of_string_valid by blast
    qed
    have rt: "runes_of_string d = r'"
      unfolding dr by (rule runes_of_string_of_runes [OF valid])
    have mem: "d \<in> string_of_runes ` set (subseqs (runes_of_string c))"
      unfolding dr using sub "1.prems"(3) by (intro imageI) (simp add: set_subseqs_eq)
    have dU: "d \<in> deletionUniverse cp"
      using UN_I [of c "set (candidates cp)" d "\<lambda>c. string_of_runes ` set (subseqs (runes_of_string c))",
                  OF "1.prems"(2) mem] "1.prems"(1)
      unfolding deletionUniverse_def by simp
    have "set (subseqs r') \<subseteq> set (subseqs (runes_of_string c))"
      using subseqs_mono [OF sub] "1.prems"(3) by simp
    then have "string_of_runes ` set (subseqs (runes_of_string d)) \<subseteq> deletionUniverse cp"
      using "1.prems"(1,2) unfolding rt deletionUniverse_def by auto
    then have U1: "deletionUniverse cp1 = deletionUniverse cp"
      using "1.prems"(1) by (auto simp: deletionUniverse_def cp1_def)
    have m1: "searchMeasure cp1 \<le> searchMeasure cp"
    proof (cases "d \<in> consideredDeletes cp")
      case True
      then show ?thesis by (simp add: cp1_def)
    next
      case False
      have "Suc (card (deletionUniverse cp - insert d (consideredDeletes cp))) =
            card (deletionUniverse cp - consideredDeletes cp)"
        by (rule card_diff_insert_less [OF finite_deletionUniverse dU False])
      moreover have "consideredDeletes cp1 = insert d (consideredDeletes cp)"
        "candidates cp1 = candidates cp @ [d]" "candidatePointer cp1 = candidatePointer cp"
        using False by (simp_all add: cp1_def)
      ultimately show ?thesis
        unfolding searchMeasure_def U1 by simp
    qed
    have "searchMeasure (addEditDistance_runes runes (i + 1) cp1) \<le> searchMeasure cp1"
      using "1.IH" [OF True d_def refl, folded cp1_def, OF u1 c1 "1.prems"(3)] .
    then show ?thesis using m1 step by simp
  qed
qed

lemma searchMeasure_cong:
  "searchQueue cp' = searchQueue cp \<Longrightarrow> searchMeasure cp' = searchMeasure cp"
  by (simp add: searchQueue_def searchMeasure_def deletionUniverse_def)

lemma processCandidate_step_measure:
  assumes "candidatePointer cp < length (candidates cp)"
    and "processCandidate_step s k cp = Inr (b, cp')"
  shows "searchMeasure cp' < searchMeasure cp"
proof -
  define c where "c = candidates cp ! candidatePointer cp"
  define cp1 where "cp1 = snd (preProcessCandidate cp)"
  have pre: "preProcessCandidate cp = (c, cp1)"
    by (simp add: cp1_def c_def preProcessCandidate_def Let_def)
  have q1: "candidates cp1 = candidates cp" "consideredDeletes cp1 = consideredDeletes cp"
    "candidatePointer cp1 = candidatePointer cp + 1" "unicode cp1 = unicode cp"
    "unicode cp \<Longrightarrow> candidateRunes cp1 = runes_of_string c"
    by (simp_all add: cp1_def c_def preProcessCandidate_def Let_def)
  have cin: "c \<in> set (candidates cp)" using assms(1) by (simp add: c_def)
  have "deletionUniverse cp1 = deletionUniverse cp"
    by (simp add: deletionUniverse_def q1)
  then have m1: "searchMeasure cp1 < searchMeasure cp"
    unfolding searchMeasure_def q1 using assms(1) by arith
  have add: "searchMeasure (addEditDistance c cp2) \<le> searchMeasure cp2"
    if "searchQueue cp2 = searchQueue cp1" for cp2
  proof -
    from that have e: "candidates cp2 = candidates cp" "unicode cp2 = unicode cp"
      "candidateRunes cp2 = candidateRunes cp1"
      by (simp_all add: searchQueue_def q1)
    show ?thesis
    proof (cases "unicode cp")
      case True
      then show ?thesis
        using addEditDistance_runes_measure [of cp2 c "runes_of_string c" 0] cin e q1(5)
        by (simp add: addEditDistance_def)
    next
      case False
      then show ?thesis
        using addEditDistance_bytes_measure [of cp2 c 0] cin e
        by (simp add: addEditDistance_def)
    qed
  qed
  define r where "r = (case DeletesIdx s c of
                    Some v \<Rightarrow>
                      (let offset = (ucast (drop_bit 32 v) :: uint32);
                           len = (ucast v :: uint32)
                       in processSuggestions s k c [unat offset ..< unat (offset + len)] cp1)
                  | None \<Rightarrow> Inr cp1)"
  have rq: "searchQueue cp2 = searchQueue cp1" if "r = Inr cp2" for cp2
    using that unfolding r_def
    by (auto simp: Let_def split: option.splits dest: searchQueue_processSuggestions)
  have st: "processCandidate_step s k cp =
     (if lenDiff cp1 > maxEditDistance2 cp1 then
           (if verbosity cp1 = All' then Inr (True, cp1) else Inr (False, cp1))
         else
           (case r of
              Inl e \<Rightarrow> Inl e
            | Inr cp2 \<Rightarrow>
                if lenDiff cp2 \<le> k \<and> candidateLen cp2 \<le> PrefixLength s then
                  (if verbosity cp2 \<noteq> All' \<and> lenDiff cp2 \<ge> maxEditDistance2 cp2 then Inr (True, cp2)
                   else Inr (True, addEditDistance c cp2))
                else Inr (True, cp2)))"
    unfolding processCandidate_step_def pre r_def by simp
  have "searchMeasure cp' \<le> searchMeasure cp1"
  proof (cases "lenDiff cp1 > maxEditDistance2 cp1")
    case True
    then show ?thesis using assms(2) unfolding st by (simp split: if_splits)
  next
    case False
    then obtain cp2 where r2: "r = Inr cp2"
      using assms(2) unfolding st by (cases r) simp_all
    have q2: "searchQueue cp2 = searchQueue cp1" by (rule rq [OF r2])
    have "cp' = cp2 \<or> cp' = addEditDistance c cp2"
      using assms(2) False unfolding st r2 by (simp split: if_splits)
    then show ?thesis
      using add [OF q2] searchMeasure_cong [OF q2] by auto
  qed
  then show ?thesis using m1 by simp
qed

function processCandidate :: "SymSpell \<Rightarrow> int \<Rightarrow> candidateProcessor \<Rightarrow> panic + candidateProcessor" where
  "processCandidate s maxEditDistance cp =
     (if candidatePointer cp < length (candidates cp) then
        (case processCandidate_step s maxEditDistance cp of
           Inl e \<Rightarrow> Inl e
         | Inr (continue, cp') \<Rightarrow>
             if continue then processCandidate s maxEditDistance cp' else Inr cp')
      else Inr cp)"
  by pat_completeness auto
termination
proof (relation "measure (\<lambda>(s, k, cp). searchMeasure cp)")
  show "wf (measure (\<lambda>(s, k, cp). searchMeasure cp))" by simp
next
  fix s :: SymSpell and maxEditDistance :: int and cp x2 x y
  assume "candidatePointer cp < length (candidates cp)"
    "processCandidate_step s maxEditDistance cp = Inr x2" "(x, y) = x2" "x"
  then show "((s, maxEditDistance, y), (s, maxEditDistance, cp)) \<in> measure (\<lambda>(s, k, cp). searchMeasure cp)"
    using processCandidate_step_measure [of cp s maxEditDistance x y] by simp
qed

declare processCandidate.simps [simp del]
text \<open>
  \<open>Lookup\<close> returns the suggestions or the error, and it changes the store: the cache
  of top results is a part of it. The model returns the error, or the suggestions and
  the store after the call. A run-time panic of the source is \<open>Panic\<close>.
\<close>

definition Lookup ::
  "SymSpell \<Rightarrow> string \<Rightarrow> Verbosity \<Rightarrow> int \<Rightarrow> lookup_error + SuggestItem list \<times> SymSpell" where
  "Lookup s phraseArg verbosityArg maxEditDistance =
     (if maxEditDistance > MaxDictionaryEditDistance s then Inl (Error ''distance too large'')
      else
        (case (if verbosityArg = Top then topCache_Get (topCache s) phraseArg
               else (None, topCache s)) of
           (Some item, c) \<Rightarrow> Inr ([item], s\<lparr>topCache := c\<rparr>)
         | (None, c) \<Rightarrow>
             (let cp = acquireCandidateProcessor maxEditDistance verbosityArg phraseArg
              in if sub64 (phraseLen cp) maxEditDistance > maxLength s then Inr (suggestions cp, s)
                 else
                   (case checkExactMatch s phraseArg verbosityArg cp of
                      Inl e \<Rightarrow> Inl (Panic e)
                    | Inr (exactMatch, cp) \<Rightarrow>
                        if shouldStop exactMatch then Inr (suggestions cp, s)
                        else if maxEditDistance = 0 then Inr (suggestions cp, s)
                        else
                          (let cp = cp\<lparr>consideredSuggestions :=
                                         insert phraseArg (consideredSuggestions cp)\<rparr>
                           in case getOriginPrefix s cp of
                                Inl e \<Rightarrow> Inl (Panic e)
                              | Inr phrasePrefix \<Rightarrow>
                                  (let cp = cp\<lparr>candidates := candidates cp @ [phrasePrefix]\<rparr>
                                   in case processCandidate s maxEditDistance cp of
                                        Inl e \<Rightarrow> Inl (Panic e)
                                      | Inr cp \<Rightarrow>
                                          (let cp = finalizeWithFrequencyCheck s cp (exactItem exactMatch);
                                               cp = sortCandidate cp;
                                               result = suggestions cp
                                           in if verbosityArg = Top \<and> length result > 0
                                              then Inr (result,
                                                        s\<lparr>topCache := topCache_Add (topCache s) phraseArg (result ! 0)\<rparr>)
                                              else Inr (result, s))))))))"
subsection \<open>The return paths of Lookup\<close>

definition exactItemOf :: "SymSpell \<Rightarrow> string \<Rightarrow> SuggestItem option" where
  "exactItemOf s p =
     (case Words s p of
        None \<Rightarrow> None
      | Some idx \<Rightarrow> Some \<lparr> Term = p, Distance = 0, Count = int (unat (counts s ! unat idx)) \<rparr>)"

lemma checkExactMatch_result:
  assumes "checkExactMatch s p v cp = Inr (em, cp')"
  shows "exactItem em = exactItemOf s p"
    and "suggestions cp' = suggestions cp @ (case exactItemOf s p of None \<Rightarrow> [] | Some e \<Rightarrow> [e])"
  using assms
  by (auto simp: checkExactMatch_def exactItemOf_def Let_def split: option.splits if_splits)

lemma suggestions_acquire [simp]: "suggestions (acquireCandidateProcessor k v p) = []"
  by (simp add: acquireCandidateProcessor_def)

lemma topCache_Get_cases:
  "topCache_Get c key = (r, c') \<Longrightarrow> r = map_of (ll c) key"
  by (auto simp: topCache_Get_def split: option.splits)

lemma Lookup_paths:
  assumes "Lookup s p v k = Inr (l, s')"
  shows "(\<exists>item. v = Top \<and> map_of (ll (topCache s)) p = Some item \<and> l = [item])
       \<or> l = []
       \<or> (\<exists>e. exactItemOf s p = Some e \<and> l = [e])
       \<or> (\<exists>cp. l = suggestions (sortCandidate (finalizeWithFrequencyCheck s cp (exactItemOf s p))))"
proof -
  define cp0 where "cp0 = acquireCandidateProcessor k v p"
  define g where "g = (if v = Top then topCache_Get (topCache s) p else (None, topCache s))"
  obtain r c where g: "g = (r, c)" by (cases g)
  show ?thesis
  proof (cases r)
    case (Some item)
    then have "v = Top" "map_of (ll (topCache s)) p = Some item"
      using g topCache_Get_cases [of "topCache s" p r c]
      by (auto simp: g_def split: if_splits)
    moreover have "l = [item]"
      using assms Some g unfolding Lookup_def g_def [symmetric]
      by (simp split: if_splits)
    ultimately show ?thesis by simp
  next
    case None
    note r = None
    show ?thesis
    proof (cases "sub64 (phraseLen cp0) k > maxLength s")
      case True
      then have "l = []"
        using assms r g unfolding Lookup_def g_def [symmetric] cp0_def [symmetric]
        by (simp add: cp0_def split: if_splits)
      then show ?thesis by simp
    next
      case False
      note gate = False
      show ?thesis
      proof (cases "checkExactMatch s p v cp0")
        case (Inl e)
        then show ?thesis
          using assms r g gate unfolding Lookup_def g_def [symmetric] cp0_def [symmetric]
          by (simp split: if_splits)
      next
        case (Inr a)
        obtain em cp1 where a: "a = (em, cp1)" by (cases a)
        note ce = Inr [unfolded a]
        have sug: "suggestions cp1 = (case exactItemOf s p of None \<Rightarrow> [] | Some e \<Rightarrow> [e])"
          using checkExactMatch_result(2) [OF ce] by (simp add: cp0_def)
        have ei: "exactItem em = exactItemOf s p" by (rule checkExactMatch_result(1) [OF ce])
        show ?thesis
        proof (cases "shouldStop em \<or> k = 0")
          case True
          then have "l = suggestions cp1"
            using assms r g gate ce unfolding Lookup_def g_def [symmetric] cp0_def [symmetric]
            by (auto split: if_splits)
          then show ?thesis using sug by (cases "exactItemOf s p") simp_all
        next
          case False
          then have "\<exists>cp. l = suggestions (sortCandidate (finalizeWithFrequencyCheck s cp (exactItem em)))"
            using assms r g gate ce unfolding Lookup_def g_def [symmetric] cp0_def [symmetric]
            by (auto simp: Let_def split: if_splits sum.splits)
          then show ?thesis unfolding ei by blast
        qed
      qed
    qed
  qed
qed

lemma Lookup_store:
  assumes "Lookup s p v k = Inr (l, s')" "v \<noteq> Top"
  shows "s' = s"
  using assms unfolding Lookup_def
  by (auto simp: Let_def split: if_splits sum.splits prod.splits option.splits)

lemma Lookup_error:
  "(\<exists>msg. Lookup s p v k = Inl (Error msg)) = (MaxDictionaryEditDistance s < k)"
  unfolding Lookup_def
  by (auto simp: Let_def split: if_splits sum.splits prod.splits option.splits)
subsection \<open>Sorting and the frequency check\<close>

definition itemLe :: "SuggestItem \<Rightarrow> SuggestItem \<Rightarrow> bool" where
  "itemLe x y = (Distance x < Distance y \<or> (Distance x = Distance y \<and> Count y \<le> Count x))"

lemma itemLe_suggestionLess: "itemLe x y = (\<not> suggestionLess y x)"
  by (auto simp: itemLe_def suggestionLess_def)

lemma itemLe_trans: "itemLe x y \<Longrightarrow> itemLe y z \<Longrightarrow> itemLe x z"
  by (auto simp: itemLe_def)

lemma suggestionLess_itemLe: "suggestionLess x y \<Longrightarrow> itemLe x y"
  by (auto simp: itemLe_def suggestionLess_def split: if_splits)

lemma set_sort_insert [simp]: "set (sort_insert lt x xs) = insert x (set xs)"
  by (induction xs) auto

lemma set_sort_Slice [simp]: "set (sort_Slice lt xs) = set xs"
  by (induction xs) auto

lemma length_sort_insert [simp]: "length (sort_insert lt x xs) = Suc (length xs)"
  by (induction xs) auto

lemma length_sort_Slice [simp]: "length (sort_Slice lt xs) = length xs"
  by (induction xs) auto

lemma sorted_sort_insert:
  "sorted_wrt itemLe xs \<Longrightarrow> sorted_wrt itemLe (sort_insert suggestionLess x xs)"
proof (induction xs)
  case Nil
  then show ?case by simp
next
  case (Cons y ys)
  show ?case
  proof (cases "suggestionLess x y")
    case True
    then have xy: "itemLe x y" by (rule suggestionLess_itemLe)
    have "\<forall>z \<in> set ys. itemLe x z"
      using Cons.prems xy by (auto intro: itemLe_trans)
    then show ?thesis using True xy Cons.prems by simp
  next
    case False
    then have "itemLe y x" by (simp add: itemLe_suggestionLess)
    then show ?thesis using False Cons by auto
  qed
qed

lemma sorted_sort_Slice: "sorted_wrt itemLe (sort_Slice suggestionLess xs)"
  by (induction xs) (auto intro: sorted_sort_insert)

lemma sorted_sortCandidate: "sorted_wrt itemLe (suggestions (sortCandidate cp))"
proof (cases "length (suggestions cp) > 1")
  case True
  then show ?thesis by (simp add: sortCandidate_def sorted_sort_Slice)
next
  case False
  then have "suggestions cp = [] \<or> (\<exists>x. suggestions cp = [x])"
    by (cases "suggestions cp") auto
  then show ?thesis using False by (auto simp: sortCandidate_def)
qed

lemma set_sortCandidate [simp]: "set (suggestions (sortCandidate cp)) = set (suggestions cp)"
  by (simp add: sortCandidate_def)

lemma Lookup_sorted_wrt:
  assumes "Lookup s p v k = Inr (l, s')"
  shows "sorted_wrt itemLe l"
  using Lookup_paths [OF assms] sorted_sortCandidate by auto

lemma sorted_wrt_consecutive:
  assumes "sorted_wrt itemLe l" "i + 1 < length l"
  shows "Distance (l ! i) \<le> Distance (l ! (i + 1))"
    and "Distance (l ! i) = Distance (l ! (i + 1)) \<Longrightarrow> Count (l ! (i + 1)) \<le> Count (l ! i)"
proof -
  have "itemLe (l ! i) (l ! (i + 1))"
    using assms by (simp add: sorted_wrt_iff_nth_less)
  then show "Distance (l ! i) \<le> Distance (l ! (i + 1))"
    and "Distance (l ! i) = Distance (l ! (i + 1)) \<Longrightarrow> Count (l ! (i + 1)) \<le> Count (l ! i)"
    by (auto simp: itemLe_def)
qed

lemma bestAlternative_keeps: "\<exists>b'. bestAlternative s e l (Some b) = Some b'"
  by (induction l arbitrary: b) (auto simp: Let_def)

lemma bestAlternative_found:
  assumes "x \<in> set l" "Distance x \<noteq> 0" "Distance x \<le> 2"
    and "mul64 (Count e) (FrequencyMultiplier s) \<le> Count x"
  shows "\<exists>b. bestAlternative s e l best = Some b"
  using assms(1)
proof (induction l arbitrary: best)
  case Nil
  then show ?case by simp
next
  case (Cons y ys)
  show ?case
  proof (cases "x = y")
    case True
    show ?thesis
    proof (cases best)
      case None
      then show ?thesis using True assms(2-4) by (simp add: bestAlternative_keeps)
    next
      case (Some b)
      then show ?thesis using True assms(2-4) by (simp add: bestAlternative_keeps)
    qed
  next
    case False
    then have "x \<in> set ys" using Cons.prems by simp
    then show ?thesis using Cons.IH by (simp add: Let_def)
  qed
qed

lemma finalize_subset:
  "set (suggestions (finalizeWithFrequencyCheck s cp em)) \<subseteq> set (suggestions cp)"
  by (auto simp: finalizeWithFrequencyCheck_def split: option.splits)

lemma finalize_drops_exact:
  assumes "x \<in> set (suggestions cp)" "Distance x \<noteq> 0" "Distance x \<le> 2"
    and "mul64 (Count e) (FrequencyMultiplier s) \<le> Count x"
    and "y \<in> set (suggestions (finalizeWithFrequencyCheck s cp (Some e)))"
  shows "Distance y \<noteq> 0"
proof (cases "length (suggestions cp) \<le> 1")
  case True
  then have "suggestions cp = [x]"
    using assms(1) by (cases "suggestions cp") auto
  then show ?thesis using assms(2,5) True by (simp add: finalizeWithFrequencyCheck_def)
next
  case False
  obtain b where "bestAlternative s e (suggestions cp) None = Some b"
    using bestAlternative_found [OF assms(1-4), of None] by auto
  then show ?thesis using assms(5) False by (simp add: finalizeWithFrequencyCheck_def)
qed
subsection \<open>The term map points into the count array\<close>

definition wordsIndexed :: "SymSpell \<Rightarrow> bool" where
  "wordsIndexed s =
     (length (words s) = length (counts s) \<and>
      (\<forall>key idx. Words s key = Some idx \<longrightarrow>
         unat idx < length (counts s) \<and> int (length key) \<le> maxLength s))"

lemma unat_of_nat_le: "unat (of_nat n :: uint32) \<le> n"
  by (simp add: unat_of_nat)

lemma wordsIndexed_append:
  assumes "addWordEntry_append s key count = Inr (b, s')" "wordsIndexed s"
  shows "wordsIndexed s'"
proof (cases "int (unat count) < CountThreshold s")
  case True
  then show ?thesis using assms by (auto simp: addWordEntry_append_def wordsIndexed_def)
next
  case False
  define m where "m = (if int (length key) > maxLength s then int (length key) else maxLength s)"
  have s': "s' = s\<lparr>words := words s @ [key], counts := counts s @ [count],
                    Words := (Words s)(key \<mapsto> of_nat (length (words s))), maxLength := m\<rparr>"
    using assms(1) False by (auto simp: addWordEntry_append_def Let_def m_def split: if_splits)
  have len: "length (words s) = length (counts s)"
    and old: "\<And>k i. Words s k = Some i \<Longrightarrow> unat i < length (counts s) \<and> int (length k) \<le> maxLength s"
    using assms(2) by (auto simp: wordsIndexed_def)
  have i: "unat (of_nat (length (words s)) :: uint32) < Suc (length (counts s))"
    using unat_of_nat_le [of "length (words s)"] len by simp
  have ml: "maxLength s \<le> m" "int (length key) \<le> m" by (auto simp: m_def)
  show ?thesis
    unfolding wordsIndexed_def
  proof (intro conjI allI impI)
    show "length (words s') = length (counts s')" by (simp add: s' len)
  next
    fix k idx assume w: "Words s' k = Some idx"
    show "unat idx < length (counts s')"
    proof (cases "k = key")
      case True
      then show ?thesis using w i by (auto simp: s')
    next
      case False
      then have "Words s k = Some idx" using w by (simp add: s')
      then show ?thesis using old [of k idx] by (simp add: s')
    qed
  next
    fix k idx assume w: "Words s' k = Some idx"
    show "int (length k) \<le> maxLength s'"
    proof (cases "k = key")
      case True
      then show ?thesis using ml by (simp add: s')
    next
      case False
      then have "Words s k = Some idx" using w by (simp add: s')
      then show ?thesis using old [of k idx] ml by (simp add: s')
    qed
  qed
qed

lemma wordsIndexed_BelowThresholdWords:
  "wordsIndexed (s\<lparr>BelowThresholdWords := m\<rparr>) = wordsIndexed s"
  by (simp add: wordsIndexed_def)

lemma wordsIndexed_addWordEntry:
  assumes "addWordEntry s key count = Inr (b, s')" "wordsIndexed s"
  shows "wordsIndexed s'"
proof -
  have a: "wordsIndexed t"
    if "addWordEntry_append (s\<lparr>BelowThresholdWords := m\<rparr>) key c = Inr (b, t)" for m c t
    using wordsIndexed_append [OF that] assms(2) by (simp add: wordsIndexed_BelowThresholdWords)
  have a': "wordsIndexed t" if "addWordEntry_append s key c = Inr (b, t)" for c t
    using wordsIndexed_append [OF that] assms(2) by simp
  have u: "wordsIndexed (s\<lparr>counts := (counts s)[i := c]\<rparr>)" for i c
    using assms(2) by (simp add: wordsIndexed_def)
  show ?thesis
    using assms(1) assms(2) a a' u
    by (auto simp: addWordEntry_def Let_def wordsIndexed_BelowThresholdWords
             split: if_splits option.splits)
qed

definition termFields ::
  "SymSpell \<Rightarrow> (string \<rightharpoonup> uint32) \<times> string list \<times> uint32 list \<times> int" where
  "termFields s = (Words s, words s, counts s, maxLength s)"

lemma wordsIndexed_cong: "termFields s' = termFields s \<Longrightarrow> wordsIndexed s' = wordsIndexed s"
  by (simp add: termFields_def wordsIndexed_def)

lemma addDelete_shape:
  assumes "addDelete index w s = Inr s'"
  shows "\<exists>d idx. s' = s\<lparr>DeletesData := d, DeletesIdx := idx\<rparr>"
proof (cases "DeletesIdx s w")
  case None
  then show ?thesis using assms unfolding addDelete_def by (simp only: option.case Let_def sum.inject) blast
next
  case (Some v)
  show ?thesis
    using assms unfolding addDelete_def Some option.case Let_def
    by (simp only: sum.inject sum.distinct split: if_splits) blast
qed

lemma termFields_addDelete: "addDelete index w s = Inr s' \<Longrightarrow> termFields s' = termFields s"
  by (drule addDelete_shape) (auto simp: termFields_def)

lemma termFields_addDeletes: "addDeletes index ws s = Inr s' \<Longrightarrow> termFields s' = termFields s"
proof (induction ws arbitrary: s)
  case Nil
  then show ?case by simp
next
  case (Cons w ws)
  then show ?case by (auto split: sum.splits dest!: termFields_addDelete)
qed

lemma wordsIndexed_createDictionaryEntry:
  assumes "createDictionaryEntry s key count = Inr (b, s')" "wordsIndexed s"
  shows "wordsIndexed s'"
proof (cases "addWordEntry s key count")
  case (Inl e)
  then show ?thesis using assms(1) by (simp add: createDictionaryEntry_def)
next
  case (Inr a)
  obtain added t where a: "a = (added, t)" by (cases a)
  note aw = Inr [unfolded a]
  have t: "wordsIndexed t" using wordsIndexed_addWordEntry [OF aw assms(2)] .
  show ?thesis
  proof (cases added)
    case False
    then show ?thesis using assms(1) aw t by (simp add: createDictionaryEntry_def)
  next
    case True
    define index where "index = (word_of_int (int (length (words t)) - 1) :: uint32)"
    have c: "(case addDeletesForIndex t key index of Inl e \<Rightarrow> Inl e | Inr s'' \<Rightarrow> Inr (True, s''))
             = Inr (b, s')"
      using assms(1) aw True by (simp add: createDictionaryEntry_def index_def)
    then obtain u where u: "addDeletesForIndex t key index = Inr u" and su: "s' = u"
      by (cases "addDeletesForIndex t key index") auto
    obtain ws where "editsPrefix t key = Inr ws" and ad: "addDeletes index ws t = Inr u"
      using u unfolding addDeletesForIndex_def by (cases "editsPrefix t key") auto
    have "termFields s' = termFields t"
      unfolding su by (rule termFields_addDeletes [OF ad])
    from wordsIndexed_cong [OF this] show ?thesis using t by simp
  qed
qed

lemma wordsIndexed_createDictionaryEntries:
  "createDictionaryEntries s entries = Inr s' \<Longrightarrow> wordsIndexed s \<Longrightarrow> wordsIndexed s'"
proof (induction entries arbitrary: s)
  case Nil
  then show ?case by simp
next
  case (Cons e entries)
  obtain key count where e: "e = (key, count)" by (cases e)
  show ?case
    using Cons.prems Cons.IH unfolding e
    by (auto split: sum.splits dest: wordsIndexed_createDictionaryEntry)
qed

lemma wordsIndexed_NewSymSpell: "NewSymSpell opts = Inr s \<Longrightarrow> wordsIndexed s"
  by (auto simp: NewSymSpell_def wordsIndexed_def split: if_splits)

lemma wordsIndexed_defaultStore: "wordsIndexed defaultStore"
  by (rule wordsIndexed_NewSymSpell [of DefaultOptions])
     (simp add: defaultStore_def NewSymSpell_def DefaultOptions_def)
subsection \<open>A sample dictionary\<close>

definition sampleEntries :: "(string \<times> uint32) list" where
  "sampleEntries = [(''abcd'', 1), (''abc'', 5), (''abd'', 50), (''ab'', 7), (''xyz'', 2000)]"

definition sampleStore :: SymSpell where
  "sampleStore =
     (case createDictionaryEntries defaultStore sampleEntries of
        Inr s \<Rightarrow> s
      | Inl e \<Rightarrow> defaultStore)"

definition Lookup_suggestions ::
  "SymSpell \<Rightarrow> string \<Rightarrow> Verbosity \<Rightarrow> int \<Rightarrow> lookup_error + SuggestItem list" where
  "Lookup_suggestions s p v k = map_sum id fst (Lookup s p v k)"

lemma Lookup_suggestions_Inr:
  assumes "Lookup_suggestions s p v k = Inr l" "v \<noteq> Top"
  shows "Lookup s p v k = Inr (l, s)"
proof (cases "Lookup s p v k")
  case (Inl e)
  then show ?thesis using assms(1) by (simp add: Lookup_suggestions_def)
next
  case (Inr r)
  obtain l' s' where r: "r = (l', s')" by (cases r)
  have "s' = s" using Lookup_store [OF Inr [unfolded r] assms(2)] .
  moreover have "l' = l" using assms(1) Inr r by (simp add: Lookup_suggestions_def)
  ultimately show ?thesis using Inr r by simp
qed

lemma sampleStore_built: "createDictionaryEntries defaultStore sampleEntries = Inr sampleStore"
proof -
  have "case createDictionaryEntries defaultStore sampleEntries of Inl e \<Rightarrow> False | Inr s \<Rightarrow> True"
    by code_simp
  then show ?thesis by (auto simp: sampleStore_def split: sum.splits)
qed

lemma wordsIndexed_sampleStore: "wordsIndexed sampleStore"
  by (rule wordsIndexed_createDictionaryEntries [OF sampleStore_built wordsIndexed_defaultStore])

lemma sampleStore_config:
  "MaxDictionaryEditDistance sampleStore = 2" "FrequencyThreshold sampleStore = 1000"
  "FrequencyMultiplier sampleStore = 10" "ll (topCache sampleStore) = []"
  by code_simp+

lemma sampleStore_xyz: "Words sampleStore ''xyz'' = Some 4" "counts sampleStore ! 4 = 2000"
  by code_simp+

lemma sampleStore_abc: "Words sampleStore ''abc'' = Some 1" "counts sampleStore ! Suc 0 = 5"
  by code_simp+

lemma sample_abe:
  "Lookup_suggestions sampleStore ''abe'' All' 2 =
     Inr [\<lparr>Term = ''abd'', Distance = 1, Count = 50\<rparr>, \<lparr>Term = ''ab'', Distance = 1, Count = 7\<rparr>,
          \<lparr>Term = ''abc'', Distance = 1, Count = 5\<rparr>, \<lparr>Term = ''abcd'', Distance = 2, Count = 1\<rparr>]"
  by code_simp

lemma sample_abc:
  "Lookup_suggestions sampleStore ''abc'' All' 1 =
     Inr [\<lparr>Term = ''abd'', Distance = 1, Count = 50\<rparr>, \<lparr>Term = ''ab'', Distance = 1, Count = 7\<rparr>,
          \<lparr>Term = ''abcd'', Distance = 1, Count = 1\<rparr>]"
  by code_simp

lemma sample_negative:
  "Lookup_suggestions sampleStore ''ab'' All' (- 1) = Inr [\<lparr>Term = ''ab'', Distance = 0, Count = 7\<rparr>]"
  by code_simp
lemma Lookup_store_Nil:
  assumes "Lookup s p v k = Inr ([], s')"
  shows "s' = s"
  using assms unfolding Lookup_def
  by (auto simp: Let_def split: if_splits sum.splits prod.splits option.splits)

lemma Lookup_store_cache:
  assumes "Lookup s p v k = Inr (l, s')"
  shows "\<exists>c. s' = s\<lparr>topCache := c\<rparr>"
proof -
  have "s = s\<lparr>topCache := topCache s\<rparr>" by simp
  then have "\<exists>c. s = s\<lparr>topCache := c\<rparr>" by blast
  then show ?thesis
    using assms unfolding Lookup_def
    by (auto simp: Let_def split: if_splits sum.splits prod.splits option.splits)
qed

lemma Lookup_cache_hit:
  assumes "k \<le> MaxDictionaryEditDistance s" "map_of (ll (topCache s)) p = Some item"
  shows "Lookup s p Top k = Inr ([item], s\<lparr>topCache := snd (topCache_Get (topCache s) p)\<rparr>)"
  using assms by (simp add: Lookup_def topCache_Get_def)

text \<open>
  The stores the interface can produce: \<open>NewSymSpell\<close> makes one, and
  \<open>createDictionaryEntry\<close> and \<open>Lookup\<close> change it. In each of them the term map points
  into the count array, and no term is longer than \<open>maxLength\<close>.
\<close>

inductive storeReachable :: "SymSpell \<Rightarrow> bool" where
  new: "NewSymSpell opts = Inr s \<Longrightarrow> storeReachable s"
| entry: "storeReachable s \<Longrightarrow> createDictionaryEntry s key count = Inr (added, s') \<Longrightarrow>
          storeReachable s'"
| lookup: "storeReachable s \<Longrightarrow> Lookup s p v k = Inr (l, s') \<Longrightarrow> storeReachable s'"

lemma storeReachable_wordsIndexed: "storeReachable s \<Longrightarrow> wordsIndexed s"
proof (induction rule: storeReachable.induct)
  case (new opts s)
  then show ?case by (rule wordsIndexed_NewSymSpell)
next
  case (entry s key count added s')
  then show ?case using wordsIndexed_createDictionaryEntry by blast
next
  case (lookup s p v k l s')
  obtain c where "s' = s\<lparr>topCache := c\<rparr>" using Lookup_store_cache [OF lookup(2)] by blast
  then show ?case using lookup(3) by (simp add: wordsIndexed_def)
qed

lemma storeReachable_entries:
  "createDictionaryEntries s entries = Inr s' \<Longrightarrow> storeReachable s \<Longrightarrow> storeReachable s'"
proof (induction entries arbitrary: s)
  case Nil
  then show ?case by simp
next
  case (Cons e entries)
  obtain key count where e: "e = (key, count)" by (cases e)
  show ?case
    using Cons.prems Cons.IH unfolding e
    by (auto split: sum.splits intro: storeReachable.entry)
qed

lemma storeReachable_sampleStore: "storeReachable sampleStore"
proof -
  have "NewSymSpell DefaultOptions = Inr defaultStore"
    by (simp add: defaultStore_def NewSymSpell_def DefaultOptions_def)
  then have "storeReachable defaultStore" by (rule storeReachable.new)
  with sampleStore_built show ?thesis by (rule storeReachable_entries)
qed

subsection \<open>The claims on Lookup\<close>

text \<open>
  Claim C4 (as amended). \<open>Lookup\<close> returns an error if and only if the distance
  \<open>k\<close> is greater than \<open>MaxDictionaryEditDistance\<close>. (The source tests nothing else: a
  negative \<open>k\<close> is not refused, see the counterexample below.)
\<close>

theorem Lookup_error_iff_too_large:
  "(\<exists>msg. Lookup s p v k = Inl (Error msg)) = (MaxDictionaryEditDistance s < k)"
  by (rule Lookup_error)

text \<open>The amended claim at the sample dictionary and \<open>k = 3\<close>, one more than the maximum.\<close>

theorem Lookup_error_iff_too_large_witness:
  "MaxDictionaryEditDistance sampleStore < 3 \<and>
   (\<exists>msg. Lookup sampleStore ''ab'' All' 3 = Inl (Error msg))"
  using Lookup_error_iff_too_large [of sampleStore "''ab''" All' 3]
  by (simp add: sampleStore_config)

text \<open>
  The claim as stated, at the sample dictionary, the phrase \<open>ab\<close> and \<open>k = -1\<close>: the
  call returns no error, and it returns a suggestion.
\<close>

theorem Lookup_negative_distance_counterexample:
  "Lookup sampleStore ''ab'' All' (- 1) = Inr ([\<lparr>Term = ''ab'', Distance = 0, Count = 7\<rparr>], sampleStore)"
  by (rule Lookup_suggestions_Inr [OF sample_negative]) simp

text \<open>
  Claim C3. In a store where the term map points into the count array (every store
  the interface can produce, \<open>storeReachable_wordsIndexed\<close>), for a phrase that is in
  the term map with a count of at least \<open>FrequencyThreshold\<close>, a verbosity other than
  \<open>All\<close> and \<open>0 < k \<le> MaxDictionaryEditDistance\<close> (\<open>k\<close> a 64-bit integer), and, when the
  verbosity is \<open>Top\<close>, no entry for the phrase in the cache: \<open>Lookup\<close> returns the single
  item of the phrase, with distance 0 and its count, and leaves the store as it is.
\<close>

theorem Lookup_exact_match_short_circuit:
  assumes "wordsIndexed s" "Words s p = Some idx"
    and "FrequencyThreshold s \<le> int (unat (counts s ! unat idx))"
    and "v \<noteq> All'" "0 < k" "k \<le> MaxDictionaryEditDistance s" "k < 2 ^ 63"
    and "v = Top \<longrightarrow> map_of (ll (topCache s)) p = None"
  shows "Lookup s p v k =
         Inr ([\<lparr> Term = p, Distance = 0, Count = int (unat (counts s ! unat idx)) \<rparr>], s)"
proof -
  define cp where "cp = acquireCandidateProcessor k v p"
  have idx: "unat idx < length (counts s)" and len: "int (length p) \<le> maxLength s"
    using assms(1,2) by (auto simp: wordsIndexed_def)
  have g: "(if v = Top then topCache_Get (topCache s) p else (None, topCache s)) = (None, topCache s)"
    using assms(8) by (simp add: topCache_Get_def)
  have "phraseLen cp \<le> int (length p)"
    using length_decode [of "map of_char p"]
    by (simp add: cp_def acquireCandidateProcessor_def runes_of_string_def)
  moreover have "0 \<le> phraseLen cp" by (simp add: cp_def acquireCandidateProcessor_def)
  ultimately have x: "- (2 ^ 63) \<le> phraseLen cp - k" "phraseLen cp - k \<le> maxLength s"
    using assms(5,7) len by linarith+
  have gate: "\<not> sub64 (phraseLen cp) k > maxLength s"
    using wrap64_le [OF x(1)] x(2) by (simp add: sub64_def)
  have ce: "checkExactMatch s p v cp =
        Inr (\<lparr> shouldStop = True,
                exactItem = Some \<lparr> Term = p, Distance = 0, Count = int (unat (counts s ! unat idx)) \<rparr> \<rparr>,
             cp\<lparr>suggestions := suggestions cp @
                   [\<lparr> Term = p, Distance = 0, Count = int (unat (counts s ! unat idx)) \<rparr>]\<rparr>)"
    using assms(2,3,4) idx by (simp add: checkExactMatch_def Let_def)
  have sg: "suggestions cp = []" by (simp add: cp_def)
  show ?thesis
    unfolding Lookup_def g cp_def [symmetric]
    using assms(6) gate ce sg by (simp add: Let_def)
qed

text \<open>The claim at the sample dictionary: the phrase \<open>xyz\<close> has the count 2000.\<close>

theorem Lookup_exact_match_short_circuit_witness:
  "storeReachable sampleStore \<and> Words sampleStore ''xyz'' = Some 4 \<and>
   FrequencyThreshold sampleStore \<le> int (unat (counts sampleStore ! unat (4 :: uint32))) \<and>
   map_of (ll (topCache sampleStore)) ''xyz'' = None \<and>
   Lookup sampleStore ''xyz'' Top 2 =
     Inr ([\<lparr> Term = ''xyz'', Distance = 0, Count = 2000 \<rparr>], sampleStore)"
  using Lookup_exact_match_short_circuit [of sampleStore "''xyz''" 4 Top 2]
    wordsIndexed_sampleStore storeReachable_sampleStore
  by (simp add: sampleStore_config sampleStore_xyz)

text \<open>
  Claim C8. Every list of suggestions that \<open>Lookup\<close> returns, for any verbosity, is
  sorted: of two consecutive items the second has no smaller distance, and when the
  distances are equal it has no greater count.
\<close>

theorem Lookup_sorted:
  assumes "Lookup s p v k = Inr (l, s')" "i + 1 < length l"
  shows "Distance (l ! i) \<le> Distance (l ! (i + 1)) \<and>
         (Distance (l ! i) = Distance (l ! (i + 1)) \<longrightarrow> Count (l ! (i + 1)) \<le> Count (l ! i))"
  using sorted_wrt_consecutive [OF Lookup_sorted_wrt [OF assms(1)] assms(2)] by blast

text \<open>The claim at the sample dictionary, the phrase \<open>abe\<close> and the verbosity \<open>All\<close>.\<close>

theorem Lookup_sorted_witness:
  "Lookup sampleStore ''abe'' All' 2 =
     Inr ([\<lparr>Term = ''abd'', Distance = 1, Count = 50\<rparr>, \<lparr>Term = ''ab'', Distance = 1, Count = 7\<rparr>,
           \<lparr>Term = ''abc'', Distance = 1, Count = 5\<rparr>, \<lparr>Term = ''abcd'', Distance = 2, Count = 1\<rparr>],
          sampleStore) \<and>
   (7 :: int) \<le> 50 \<and> (1 :: int) \<le> 2"
  using Lookup_sorted [OF Lookup_suggestions_Inr [OF sample_abe], of 0]
    Lookup_sorted [OF Lookup_suggestions_Inr [OF sample_abe], of 2]
    Lookup_suggestions_Inr [OF sample_abe]
  by simp

text \<open>
  Claim C2. If the phrase is in the term map (an exact match is found) and the list
  that \<open>Lookup\<close> returns has a suggestion at distance 1 or 2 with a count of at least
  the exact match's count times \<open>FrequencyMultiplier\<close>, then the list has no item
  with distance 0; for every verbosity. The suggestions other than the exact match
  are the same before and after the frequency check, so the returned list has such
  a suggestion exactly when the list before the check has one. The multiplier is not
  negative (\<open>NewSymSpell\<close> refuses a multiplier below 2); the source takes the product
  in 64 bits.
\<close>

theorem Lookup_drops_exact_match:
  assumes "Lookup s p v k = Inr (l, s')"
    and "Words s p = Some idx"
    and "0 \<le> FrequencyMultiplier s"
    and "x \<in> set l" "Distance x = 1 \<or> Distance x = 2"
    and "int (unat (counts s ! unat idx)) * FrequencyMultiplier s \<le> Count x"
  shows "\<forall>y \<in> set l. Distance y \<noteq> 0"
proof -
  define e where "e = \<lparr> Term = p, Distance = 0, Count = int (unat (counts s ! unat idx)) \<rparr>"
  have ei: "exactItemOf s p = Some e" using assms(2) by (simp add: exactItemOf_def e_def)
  have "0 \<le> Count e * FrequencyMultiplier s" using assms(3) by (simp add: e_def)
  moreover have "- (2 ^ 63) \<le> (0 :: int)" by simp
  ultimately have "- (2 ^ 63) \<le> Count e * FrequencyMultiplier s" by (rule order_trans [rotated])
  then have "mul64 (Count e) (FrequencyMultiplier s) \<le> Count e * FrequencyMultiplier s"
    unfolding mul64_def by (rule wrap64_le)
  then have req: "mul64 (Count e) (FrequencyMultiplier s) \<le> Count x"
    using assms(6) by (simp add: e_def)
  have dx: "Distance x \<noteq> 0" "Distance x \<le> 2" using assms(5) by auto
  from Lookup_paths [OF assms(1)] consider
      (cache) item where "l = [item]" "map_of (ll (topCache s)) p = Some item"
    | (none) "l = []"
    | (exact) "l = [e]"
    | (search) cp where "l = suggestions (sortCandidate (finalizeWithFrequencyCheck s cp (Some e)))"
    unfolding ei by auto
  then show ?thesis
  proof cases
    case cache
    then show ?thesis using assms(4) dx by simp
  next
    case none
    then show ?thesis by simp
  next
    case exact
    then show ?thesis using assms(4) dx by (simp add: e_def)
  next
    case search
    then have l: "set l = set (suggestions (finalizeWithFrequencyCheck s cp (Some e)))" by simp
    then have "x \<in> set (suggestions cp)" using assms(4) finalize_subset by blast
    from finalize_drops_exact [OF this dx req] show ?thesis unfolding l by blast
  qed
qed

text \<open>
  The claim at the sample dictionary and the phrase \<open>abc\<close>, a term with the count 5:
  \<open>abd\<close> is at distance 1 and has the count 50, ten times as much, and \<open>abc\<close> is not
  returned.
\<close>

theorem Lookup_drops_exact_match_witness:
  "Words sampleStore ''abc'' = Some 1 \<and>
   int (unat (counts sampleStore ! unat (1 :: uint32))) * FrequencyMultiplier sampleStore \<le> 50 \<and>
   Lookup sampleStore ''abc'' All' 1 =
     Inr ([\<lparr>Term = ''abd'', Distance = 1, Count = 50\<rparr>, \<lparr>Term = ''ab'', Distance = 1, Count = 7\<rparr>,
           \<lparr>Term = ''abcd'', Distance = 1, Count = 1\<rparr>], sampleStore)"
  using Lookup_drops_exact_match [OF Lookup_suggestions_Inr [OF sample_abc], of 1
          "\<lparr>Term = ''abd'', Distance = 1, Count = 50\<rparr>"]
    Lookup_suggestions_Inr [OF sample_abc]
  by (simp add: sampleStore_config sampleStore_abc)
definition cachedStore :: SymSpell where
  "cachedStore =
     (case Lookup sampleStore ''x'' Top 2 of
        Inr (l, s) \<Rightarrow> s
      | Inl e \<Rightarrow> sampleStore)"

lemma sample_x_first:
  "map_sum id (\<lambda>(l, s). (l, ll (topCache s), MaxDictionaryEditDistance s))
     (Lookup sampleStore ''x'' Top 2) =
   Inr ([\<lparr>Term = ''xyz'', Distance = 2, Count = 2000\<rparr>],
        [(''x'', \<lparr>Term = ''xyz'', Distance = 2, Count = 2000\<rparr>)], 2)"
  by code_simp

lemma sample_x_fresh: "Lookup_suggestions sampleStore ''x'' Top 1 = Inr []"
  by code_simp

lemma cachedStore_first:
  "Lookup sampleStore ''x'' Top 2 = Inr ([\<lparr>Term = ''xyz'', Distance = 2, Count = 2000\<rparr>], cachedStore)"
  "ll (topCache cachedStore) = [(''x'', \<lparr>Term = ''xyz'', Distance = 2, Count = 2000\<rparr>)]"
  "MaxDictionaryEditDistance cachedStore = 2"
proof -
  obtain l s1 where r: "Lookup sampleStore ''x'' Top 2 = Inr (l, s1)"
    using sample_x_first by (cases "Lookup sampleStore ''x'' Top 2") auto
  have c: "cachedStore = s1" by (simp add: cachedStore_def r)
  show "Lookup sampleStore ''x'' Top 2 = Inr ([\<lparr>Term = ''xyz'', Distance = 2, Count = 2000\<rparr>], cachedStore)"
    "ll (topCache cachedStore) = [(''x'', \<lparr>Term = ''xyz'', Distance = 2, Count = 2000\<rparr>)]"
    "MaxDictionaryEditDistance cachedStore = 2"
    using sample_x_first unfolding c r by simp_all
qed

lemma cachedStore_hit:
  "cachedStore\<lparr>topCache := snd (topCache_Get (topCache cachedStore) ''x'')\<rparr> = cachedStore"
  by (simp add: topCache_Get_def cachedStore_first(2))

lemma sample_x_fresh_store: "Lookup sampleStore ''x'' Top 1 = Inr ([], sampleStore)"
proof (cases "Lookup sampleStore ''x'' Top 1")
  case (Inl e)
  then show ?thesis using sample_x_fresh by (simp add: Lookup_suggestions_def)
next
  case (Inr r)
  obtain l s' where r: "r = (l, s')" by (cases r)
  have "l = []" using sample_x_fresh Inr r by (simp add: Lookup_suggestions_def)
  then show ?thesis using Inr r Lookup_store_Nil [of sampleStore "''x''" Top 1 s'] by simp
qed

text \<open>
  Claim C10. The cache of top results is read by the phrase alone. For every store,
  phrase and \<open>k \<le> MaxDictionaryEditDistance\<close>: if the verbosity is \<open>Top\<close> and the cache
  holds an item for the phrase, \<open>Lookup\<close> returns that item and nothing else, whatever
  \<open>k\<close>, the length of the phrase and the dictionary are; the store after the call is
  the store with the entry moved to the front of the cache. And the item can be
  farther than \<open>k\<close>: in the sample dictionary \<open>Lookup(x, Top, 2)\<close> returns \<open>xyz\<close> at distance
  2 and caches it; then \<open>Lookup(x, Top, 1)\<close> returns \<open>xyz\<close> at distance 2 again, while the
  same call on the store before returns nothing.
\<close>

theorem Lookup_cache_ignores_distance:
  "(k \<le> MaxDictionaryEditDistance s \<and> map_of (ll (topCache s)) p = Some item \<longrightarrow>
      Lookup s p Top k = Inr ([item], s\<lparr>topCache := snd (topCache_Get (topCache s) p)\<rparr>)) \<and>
   storeReachable cachedStore \<and>
   Lookup sampleStore ''x'' Top 2 =
     Inr ([\<lparr>Term = ''xyz'', Distance = 2, Count = 2000\<rparr>], cachedStore) \<and>
   1 \<le> MaxDictionaryEditDistance cachedStore \<and>
   Lookup cachedStore ''x'' Top 1 =
     Inr ([\<lparr>Term = ''xyz'', Distance = 2, Count = 2000\<rparr>], cachedStore) \<and>
   Lookup sampleStore ''x'' Top 1 = Inr ([], sampleStore)"
proof -
  have "Lookup cachedStore ''x'' Top 1 =
     Inr ([\<lparr>Term = ''xyz'', Distance = 2, Count = 2000\<rparr>], cachedStore)"
    using Lookup_cache_hit [of 1 cachedStore "''x''" "\<lparr>Term = ''xyz'', Distance = 2, Count = 2000\<rparr>"]
    by (simp add: cachedStore_first cachedStore_hit)
  moreover have "storeReachable cachedStore"
    by (rule storeReachable.lookup [OF storeReachable_sampleStore cachedStore_first(1)])
  ultimately show ?thesis
    using Lookup_cache_hit [of k s p item] cachedStore_first sample_x_fresh_store by simp
qed

text \<open>
  The first part of the claim at the store after \<open>Lookup(x, Top, 2)\<close>, with \<open>k = 0\<close>: the
  item at distance 2 is returned.
\<close>

theorem Lookup_cache_ignores_distance_witness:
  "0 \<le> MaxDictionaryEditDistance cachedStore \<and>
   map_of (ll (topCache cachedStore)) ''x'' = Some \<lparr>Term = ''xyz'', Distance = 2, Count = 2000\<rparr> \<and>
   Lookup cachedStore ''x'' Top 0 =
     Inr ([\<lparr>Term = ''xyz'', Distance = 2, Count = 2000\<rparr>], cachedStore)"
  using Lookup_cache_ignores_distance [of 0 cachedStore "''x''" "\<lparr>Term = ''xyz'', Distance = 2, Count = 2000\<rparr>"]
  by (simp add: cachedStore_first(2,3) cachedStore_hit)

end
